theory Spec2Isabelle
  imports Main
begin

section \<open>Data model of \<open>boolean_sat_solver.py\<close>\<close>

text \<open>
  A literal is a pair of a variable and the polarity wanted for it, a clause is a Python
  list of literals, a formula a Python list of clauses, and an assignment is a Python
  dict from variables to booleans. Lists keep their order; the dict is a partial map.
\<close>

type_synonym 'v literal = "'v \<times> bool"
type_synonym 'v clause = "'v literal list"
type_synonym 'v formula = "'v clause list"
type_synonym 'v assignment = "'v \<rightharpoonup> bool"

text \<open>The one exception the solver can raise on a well-typed formula.\<close>

datatype error = IndexError

text \<open>Variables of a clause and of a formula.\<close>

definition clause_vars :: "'v clause \<Rightarrow> 'v set" where
  "clause_vars clause = fst ` set clause"

definition formula_vars :: "'v formula \<Rightarrow> 'v set" where
  "formula_vars formula = (\<Union>clause \<in> set formula. clause_vars clause)"

text \<open>
  An assignment satisfies a clause when some literal \<open>(v, b)\<close> of the clause has
  \<open>v\<close> bound to \<open>b\<close>; it satisfies a formula when it satisfies every clause.
\<close>

definition satisfies_clause :: "'v assignment \<Rightarrow> 'v clause \<Rightarrow> bool" where
  "satisfies_clause A clause = list_ex (\<lambda>(variable, val). A variable = Some val) clause"

definition satisfies :: "'v assignment \<Rightarrow> 'v formula \<Rightarrow> bool" where
  "satisfies A formula = list_all (satisfies_clause A) formula"

section \<open>\<open>simplify_with_unit_clauses\<close>\<close>

text \<open>
  The inner \<open>for variable, value in clause\<close> loop with its \<open>break\<close>: \<open>None\<close> is
  the \<open>break\<close> (a literal matches the assignments, so the \<open>else\<close> branch of the loop is
  skipped), \<open>Some simplified_clause\<close> is the loop running to its end.
\<close>

fun scan_clause :: "'v clause \<Rightarrow> 'v assignment \<Rightarrow> 'v clause \<Rightarrow> 'v clause option" where
  "scan_clause [] assignments simplified_clause = Some simplified_clause"
| "scan_clause ((variable, val) # rest) assignments simplified_clause =
     (case assignments variable of
        Some stored \<Rightarrow>
          (if stored = val then None
           else scan_clause rest assignments simplified_clause)
      | None \<Rightarrow> scan_clause rest assignments (simplified_clause @ [(variable, val)]))"

text \<open>
  The outer \<open>for clause in formula\<close> loop. The state is the dict \<open>assignments\<close>, which
  the code mutates in place, the list \<open>simplified_formula\<close> and the flag
  \<open>exists_unit_clause\<close>. The result is the returned value (\<open>None\<close>, or the pair of the
  surviving clauses and the flag) together with the dict as the call leaves it.
\<close>

fun simplify_loop ::
  "'v formula \<Rightarrow> 'v assignment \<Rightarrow> 'v formula \<Rightarrow> bool \<Rightarrow>
   ('v formula \<times> bool) option \<times> 'v assignment" where
  "simplify_loop [] assignments simplified_formula exists_unit_clause =
     (Some (simplified_formula, exists_unit_clause), assignments)"
| "simplify_loop (clause # rest) assignments simplified_formula exists_unit_clause =
     (case scan_clause clause assignments [] of
        None \<Rightarrow> simplify_loop rest assignments simplified_formula exists_unit_clause
      | Some simplified_clause \<Rightarrow>
          (if length simplified_clause = 0 then (None, assignments)
           else if length simplified_clause = 1 then
             (case simplified_clause ! 0 of
                (clause_var, clause_val) \<Rightarrow>
                  simplify_loop rest (assignments(clause_var \<mapsto> clause_val))
                    simplified_formula True)
           else simplify_loop rest assignments
                  (simplified_formula @ [simplified_clause]) exists_unit_clause))"

definition simplify_with_unit_clauses ::
  "'v formula \<Rightarrow> 'v assignment \<Rightarrow> ('v formula \<times> bool) option \<times> 'v assignment" where
  "simplify_with_unit_clauses formula assignments = simplify_loop formula assignments [] False"

section \<open>Properties of one pass of \<open>simplify_with_unit_clauses\<close>\<close>

text \<open>
  The literals the inner loop keeps when it runs to its end: those whose variable is
  not a key of the assignments.
\<close>

definition unassigned_literals :: "'v assignment \<Rightarrow> 'v clause \<Rightarrow> 'v clause" where
  "unassigned_literals A clause = filter (\<lambda>(v, b). A v = None) clause"

lemma scan_clause_char:
  "scan_clause clause A acc =
     (if satisfies_clause A clause then None
      else Some (acc @ unassigned_literals A clause))"
  unfolding satisfies_clause_def unassigned_literals_def
  by (induction clause A acc rule: scan_clause.induct) (auto split: option.splits)

lemma simplify_loop_sat:
  "satisfies_clause A c \<Longrightarrow> simplify_loop (c # cs) A sf u = simplify_loop cs A sf u"
  by (simp add: scan_clause_char)

lemma simplify_loop_empty:
  "\<not> satisfies_clause A c \<Longrightarrow> unassigned_literals A c = [] \<Longrightarrow>
     simplify_loop (c # cs) A sf u = (None, A)"
  by (simp add: scan_clause_char)

lemma simplify_loop_unit:
  "\<not> satisfies_clause A c \<Longrightarrow> unassigned_literals A c = [(v, b)] \<Longrightarrow>
     simplify_loop (c # cs) A sf u = simplify_loop cs (A(v \<mapsto> b)) sf True"
  by (simp add: scan_clause_char)

lemma simplify_loop_many:
  "\<not> satisfies_clause A c \<Longrightarrow> 2 \<le> length (unassigned_literals A c) \<Longrightarrow>
     simplify_loop (c # cs) A sf u = simplify_loop cs A (sf @ [unassigned_literals A c]) u"
  by (auto simp: scan_clause_char)

declare simplify_loop.simps(2) [simp del]

lemma simplify_loop_cases [case_names Nil Sat Empty Unit Many]:
  assumes "\<And>A sf u. P [] A sf u"
    and "\<And>c cs A sf u. satisfies_clause A c \<Longrightarrow> P cs A sf u \<Longrightarrow> P (c # cs) A sf u"
    and "\<And>c cs A sf u. \<not> satisfies_clause A c \<Longrightarrow> unassigned_literals A c = [] \<Longrightarrow>
           P (c # cs) A sf u"
    and "\<And>c cs A sf u v b. \<not> satisfies_clause A c \<Longrightarrow> unassigned_literals A c = [(v, b)] \<Longrightarrow>
           P cs (A(v \<mapsto> b)) sf True \<Longrightarrow> P (c # cs) A sf u"
    and "\<And>c cs A sf u. \<not> satisfies_clause A c \<Longrightarrow> 2 \<le> length (unassigned_literals A c) \<Longrightarrow>
           P cs A (sf @ [unassigned_literals A c]) u \<Longrightarrow> P (c # cs) A sf u"
  shows "P F A sf u"
proof (induction F arbitrary: A sf u)
  case Nil
  show ?case by (rule assms(1))
next
  case (Cons c cs)
  show ?case
  proof (cases "satisfies_clause A c")
    case True
    then show ?thesis using assms(2) Cons.IH by blast
  next
    case False
    show ?thesis
    proof (cases "unassigned_literals A c")
      case Nil
      with False show ?thesis using assms(3) by blast
    next
      case (Cons l ls)
      note outer = this
      show ?thesis
      proof (cases ls)
        case Nil
        obtain v b where "l = (v, b)" by (cases l)
        with Nil outer have "unassigned_literals A c = [(v, b)]" by simp
        with False show ?thesis using assms(4) Cons.IH by blast
      next
        case (Cons l' ls')
        with outer have "2 \<le> length (unassigned_literals A c)" by simp
        with False show ?thesis using assms(5) Cons.IH by blast
      qed
    qed
  qed
qed

lemma unassigned_subset: "set (unassigned_literals A c) \<subseteq> set c"
  by (auto simp: unassigned_literals_def)

lemma unassigned_vars: "clause_vars (unassigned_literals A c) \<inter> dom A = {}"
  by (auto simp: unassigned_literals_def clause_vars_def)

lemma unassigned_unit:
  assumes "unassigned_literals A c = [(v, b)]"
  shows "(v, b) \<in> set c" "A v = None"
proof -
  have "(v, b) \<in> set (unassigned_literals A c)" using assms by simp
  then show "(v, b) \<in> set c" "A v = None" by (auto simp: unassigned_literals_def)
qed

lemma satisfies_clause_iff:
  "satisfies_clause A c \<longleftrightarrow> (\<exists>(v, b) \<in> set c. A v = Some b)"
  by (auto simp: satisfies_clause_def list_ex_iff)

lemma satisfies_iff: "satisfies A F \<longleftrightarrow> (\<forall>c \<in> set F. satisfies_clause A c)"
  by (simp add: satisfies_def list_all_iff)

lemma satisfies_clause_mono:
  "A \<subseteq>\<^sub>m A' \<Longrightarrow> satisfies_clause A c \<Longrightarrow> satisfies_clause A' c"
  by (fastforce simp: satisfies_clause_iff map_le_def dom_def)

lemma satisfies_clause_subset:
  "set c' \<subseteq> set c \<Longrightarrow> satisfies_clause A c' \<Longrightarrow> satisfies_clause A c"
  by (fastforce simp: satisfies_clause_iff)

lemma formula_vars_Cons [simp]:
  "formula_vars (c # cs) = clause_vars c \<union> formula_vars cs"
  by (simp add: formula_vars_def)

lemma formula_vars_Nil [simp]: "formula_vars [] = {}"
  by (simp add: formula_vars_def)

lemma formula_vars_append [simp]:
  "formula_vars (F @ G) = formula_vars F \<union> formula_vars G"
  by (auto simp: formula_vars_def)

lemma finite_formula_vars [simp]: "finite (formula_vars F)"
  by (simp add: formula_vars_def clause_vars_def)

lemma clause_vars_mono: "set c' \<subseteq> set c \<Longrightarrow> clause_vars c' \<subseteq> clause_vars c"
  by (auto simp: clause_vars_def)

lemma simplify_loop_mono:
  "simplify_loop F A sf u = (r, A') \<Longrightarrow> A \<subseteq>\<^sub>m A' \<and> dom A' \<subseteq> dom A \<union> formula_vars F"
proof (induction F A sf u rule: simplify_loop_cases)
  case (Nil A sf u)
  then show ?case by simp
next
  case (Sat c cs A sf u)
  then show ?case by (auto simp: simplify_loop_sat)
next
  case (Empty c cs A sf u)
  then show ?case by (simp add: simplify_loop_empty)
next
  case (Unit c cs A sf u v b)
  from Unit.prems Unit.hyps have "simplify_loop cs (A(v \<mapsto> b)) sf True = (r, A')"
    by (simp add: simplify_loop_unit)
  from Unit.IH[OF this] have 1: "A(v \<mapsto> b) \<subseteq>\<^sub>m A'"
    and 2: "dom A' \<subseteq> dom (A(v \<mapsto> b)) \<union> formula_vars cs"
    by blast+
  have 3: "A v = None" and 4: "(v, b) \<in> set c"
    using unassigned_unit[OF Unit.hyps(2)] by auto
  have "A \<subseteq>\<^sub>m A(v \<mapsto> b)" using 3 by (auto simp: map_le_def)
  with 1 have "A \<subseteq>\<^sub>m A'" by (rule map_le_trans[rotated])
  moreover have "v \<in> clause_vars c" using 4 by (force simp: clause_vars_def)
  then have "dom A' \<subseteq> dom A \<union> formula_vars (c # cs)" using 2 by auto
  ultimately show ?case by simp
next
  case (Many c cs A sf u)
  then show ?case by (auto simp: simplify_loop_many)
qed

lemma simplify_loop_output:
  "simplify_loop F A sf u = (Some (F', u'), A') \<Longrightarrow>
     \<exists>new. F' = sf @ new \<and> (\<forall>c' \<in> set new. 2 \<le> length c' \<and> (\<exists>c \<in> set F. set c' \<subseteq> set c))"
proof (induction F A sf u rule: simplify_loop_cases)
  case (Nil A sf u)
  then show ?case by simp
next
  case (Sat c cs A sf u)
  then show ?case by (auto simp: simplify_loop_sat)
next
  case (Empty c cs A sf u)
  then show ?case by (simp add: simplify_loop_empty)
next
  case (Unit c cs A sf u v b)
  from Unit.prems Unit.hyps have "simplify_loop cs (A(v \<mapsto> b)) sf True = (Some (F', u'), A')"
    by (simp add: simplify_loop_unit)
  from Unit.IH[OF this] show ?case by auto
next
  case (Many c cs A sf u)
  from Many.prems Many.hyps
  have "simplify_loop cs A (sf @ [unassigned_literals A c]) u = (Some (F', u'), A')"
    by (simp add: simplify_loop_many)
  from Many.IH[OF this] obtain new where
    n: "F' = (sf @ [unassigned_literals A c]) @ new"
       "\<forall>c' \<in> set new. 2 \<le> length c' \<and> (\<exists>c \<in> set cs. set c' \<subseteq> set c)"
    by blast
  have "F' = sf @ (unassigned_literals A c # new)" using n(1) by simp
  moreover have "\<forall>c' \<in> set (unassigned_literals A c # new).
      2 \<le> length c' \<and> (\<exists>d \<in> set (c # cs). set c' \<subseteq> set d)"
    using n(2) Many.hyps(2) unassigned_subset[of A c] by auto
  ultimately show ?case by blast
qed

lemma simplify_loop_no_unit:
  "simplify_loop F A sf u = (Some (F', False), A') \<Longrightarrow>
     \<not> u \<and> A' = A \<and> (\<exists>new. F' = sf @ new \<and> formula_vars new \<inter> dom A = {})"
proof (induction F A sf u rule: simplify_loop_cases)
  case (Nil A sf u)
  then show ?case by simp
next
  case (Sat c cs A sf u)
  then show ?case by (auto simp: simplify_loop_sat)
next
  case (Empty c cs A sf u)
  then show ?case by (simp add: simplify_loop_empty)
next
  case (Unit c cs A sf u v b)
  from Unit.prems Unit.hyps have "simplify_loop cs (A(v \<mapsto> b)) sf True = (Some (F', False), A')"
    by (simp add: simplify_loop_unit)
  from Unit.IH[OF this] show ?case by simp
next
  case (Many c cs A sf u)
  from Many.prems Many.hyps
  have "simplify_loop cs A (sf @ [unassigned_literals A c]) u = (Some (F', False), A')"
    by (simp add: simplify_loop_many)
  from Many.IH[OF this] obtain new where
    n: "\<not> u" "A' = A" "F' = (sf @ [unassigned_literals A c]) @ new"
       "formula_vars new \<inter> dom A = {}"
    by blast
  have "F' = sf @ (unassigned_literals A c # new)" using n(3) by simp
  moreover have "formula_vars (unassigned_literals A c # new) \<inter> dom A = {}"
    using n(4) unassigned_vars[of A c] by auto
  ultimately show ?case using n(1,2) by blast
qed

lemma simplify_loop_unit_progress:
  "simplify_loop F A sf u = (Some (F', True), A') \<Longrightarrow>
     u \<or> (\<exists>v \<in> formula_vars F. A v = None \<and> A' v \<noteq> None)"
proof (induction F A sf u rule: simplify_loop_cases)
  case (Nil A sf u)
  then show ?case by simp
next
  case (Sat c cs A sf u)
  then show ?case by (auto simp: simplify_loop_sat)
next
  case (Empty c cs A sf u)
  then show ?case by (simp add: simplify_loop_empty)
next
  case (Unit c cs A sf u v b)
  from Unit.prems Unit.hyps have run: "simplify_loop cs (A(v \<mapsto> b)) sf True = (Some (F', True), A')"
    by (simp add: simplify_loop_unit)
  from simplify_loop_mono[OF run] have "A(v \<mapsto> b) \<subseteq>\<^sub>m A'" by simp
  then have "A' v = Some b" by (auto simp: map_le_def)
  moreover have "A v = None" "v \<in> clause_vars c"
    using unassigned_unit[OF Unit.hyps(2)] by (force simp: clause_vars_def)+
  ultimately show ?case by auto
next
  case (Many c cs A sf u)
  then show ?case by (auto simp: simplify_loop_many)
qed

lemma simplify_loop_sound:
  "simplify_loop F A sf u = (Some (F', u'), A') \<Longrightarrow> c \<in> set F \<Longrightarrow>
     satisfies_clause A' c \<or> (\<exists>c' \<in> set (drop (length sf) F'). set c' \<subseteq> set c)"
proof (induction F A sf u rule: simplify_loop_cases)
  case (Nil A sf u)
  then show ?case by simp
next
  case (Sat d cs A sf u)
  from Sat.prems Sat.hyps have run: "simplify_loop cs A sf u = (Some (F', u'), A')"
    by (simp add: simplify_loop_sat)
  show ?case
  proof (cases "c = d")
    case True
    from simplify_loop_mono[OF run] Sat.hyps(1) True show ?thesis
      using satisfies_clause_mono by blast
  next
    case False
    with Sat.prems(2) have "c \<in> set cs" by simp
    from Sat.IH[OF run this] show ?thesis .
  qed
next
  case (Empty d cs A sf u)
  then show ?case by (simp add: simplify_loop_empty)
next
  case (Unit d cs A sf u v b)
  from Unit.prems Unit.hyps have run: "simplify_loop cs (A(v \<mapsto> b)) sf True = (Some (F', u'), A')"
    by (simp add: simplify_loop_unit)
  show ?case
  proof (cases "c = d")
    case True
    from simplify_loop_mono[OF run] have "A(v \<mapsto> b) \<subseteq>\<^sub>m A'" by simp
    then have "A' v = Some b" by (auto simp: map_le_def)
    moreover have "(v, b) \<in> set c" using unassigned_unit[OF Unit.hyps(2)] True by simp
    ultimately show ?thesis by (auto simp: satisfies_clause_iff)
  next
    case False
    with Unit.prems(2) have "c \<in> set cs" by simp
    from Unit.IH[OF run this] show ?thesis .
  qed
next
  case (Many d cs A sf u)
  from Many.prems Many.hyps
  have run: "simplify_loop cs A (sf @ [unassigned_literals A d]) u = (Some (F', u'), A')"
    by (simp add: simplify_loop_many)
  from simplify_loop_output[OF run] obtain new where
    F': "F' = (sf @ [unassigned_literals A d]) @ new" by blast
  then have dr: "drop (length sf) F' = unassigned_literals A d # new" by simp
  show ?case
  proof (cases "c = d")
    case True
    then show ?thesis using dr unassigned_subset[of A d] by auto
  next
    case False
    with Many.prems(2) have "c \<in> set cs" by simp
    from Many.IH[OF run this] show ?thesis using F' dr by auto
  qed
qed

lemma simplify_loop_fixpoint:
  "\<forall>c \<in> set F. 2 \<le> length c \<and> clause_vars c \<inter> dom A = {} \<Longrightarrow>
     simplify_loop F A sf u = (Some (sf @ F, u), A)"
proof (induction F arbitrary: sf)
  case Nil
  then show ?case by simp
next
  case (Cons c cs)
  have cv: "clause_vars c \<inter> dom A = {}" and len: "2 \<le> length c" using Cons.prems by auto
  have un: "unassigned_literals A c = c"
    unfolding unassigned_literals_def using cv
    by (intro filter_True) (force simp: clause_vars_def dom_def)
  have ns: "\<not> satisfies_clause A c"
    using cv by (force simp: satisfies_clause_iff clause_vars_def dom_def)
  have "simplify_loop (c # cs) A sf u = simplify_loop cs A (sf @ [c]) u"
    using simplify_loop_many[OF ns, of cs sf u] un len by simp
  also have "\<dots> = (Some ((sf @ [c]) @ cs, u), A)"
    using Cons.prems by (intro Cons.IH) simp
  finally show ?case by simp
qed

lemma simplify_pass_measure:
  assumes "simplify_with_unit_clauses F A = (Some (F', True), A')"
  shows "card (formula_vars F' - dom A') < card (formula_vars F - dom A)"
proof -
  from assms have run: "simplify_loop F A [] False = (Some (F', True), A')"
    by (simp add: simplify_with_unit_clauses_def)
  from simplify_loop_mono[OF run] have le: "A \<subseteq>\<^sub>m A'" by simp
  then have dom: "dom A \<subseteq> dom A'" by (rule map_le_implies_dom_le)
  from simplify_loop_output[OF run] have sub: "formula_vars F' \<subseteq> formula_vars F"
    by (fastforce simp: formula_vars_def clause_vars_def)
  from simplify_loop_unit_progress[OF run] obtain v where
    v: "v \<in> formula_vars F" "A v = None" "A' v \<noteq> None" by blast
  have "formula_vars F' - dom A' \<subset> formula_vars F - dom A"
    using dom sub v by (auto simp: dom_def)
  then show ?thesis by (intro psubset_card_mono) simp_all
qed

lemma simplify_step_measure:
  "simplify_with_unit_clauses F A = (Some (F', u'), A') \<Longrightarrow>
     (if u' then Suc (card (formula_vars F' - dom A')) else 0) < Suc (card (formula_vars F - dom A))"
  using simplify_pass_measure[of F A F' A'] by (cases u') auto

section \<open>The propagation loop of \<open>try_assignment\<close>\<close>

text \<open>
  The \<open>while exists_unit_clause\<close> loop of \<open>try_assignment\<close>. The flag starts as
  \<open>True\<close>, so the first pass always runs. When \<open>simplify_with_unit_clauses\<close> returns
  \<open>None\<close> the tuple unpacking raises the \<open>TypeError\<close> that the loop catches, and
  \<open>try_assignment\<close> returns \<open>None\<close>: that is the result \<open>None\<close> here. Otherwise the loop
  ends with the simplified formula and the dict \<open>temp_assignment\<close> as the passes left it.
\<close>

function propagate_while ::
  "bool \<Rightarrow> 'v formula \<Rightarrow> 'v assignment \<Rightarrow> ('v formula \<times> 'v assignment) option" where
  "propagate_while exists_unit_clause simplified_formula temp_assignment =
     (if exists_unit_clause then
        (case simplify_with_unit_clauses simplified_formula temp_assignment of
           (None, _) \<Rightarrow> None
         | (Some (simplified_formula', exists_unit_clause'), temp_assignment') \<Rightarrow>
             propagate_while exists_unit_clause' simplified_formula' temp_assignment')
      else Some (simplified_formula, temp_assignment))"
  by pat_completeness auto
termination
proof (relation "measure (\<lambda>(u, F, A). if u then Suc (card (formula_vars F - dom A)) else 0)",
    goal_cases)
  case 1
  show ?case by simp
next
  case (2 u F A x A' y F' u')
  then have "simplify_with_unit_clauses F A = (Some (F', u'), A')" by simp
  from simplify_step_measure[OF this] 2(1) show ?case by simp
qed

declare propagate_while.simps [simp del]

lemma propagate_while_False [simp]: "propagate_while False F A = Some (F, A)"
  by (simp add: propagate_while.simps)

lemma propagate_while_True:
  "propagate_while True F A =
     (case simplify_with_unit_clauses F A of
        (None, _) \<Rightarrow> None
      | (Some (F', u'), A') \<Rightarrow> propagate_while u' F' A')"
  by (subst propagate_while.simps) simp

lemma simplify_vars_subset:
  assumes "simplify_with_unit_clauses F A = (Some (F', u'), A')"
  shows "formula_vars F' \<subseteq> formula_vars F"
proof -
  from assms have run: "simplify_loop F A [] False = (Some (F', u'), A')"
    by (simp add: simplify_with_unit_clauses_def)
  from simplify_loop_output[OF run] show ?thesis
    by (fastforce simp: formula_vars_def clause_vars_def)
qed

lemma propagate_while_mono:
  "propagate_while u F A = Some (F', A') \<Longrightarrow>
     A \<subseteq>\<^sub>m A' \<and> dom A' \<subseteq> dom A \<union> formula_vars F \<and> formula_vars F' \<subseteq> formula_vars F"
proof (induction u F A rule: propagate_while.induct)
  case (1 u F A)
  show ?case
  proof (cases u)
    case False
    with 1 show ?thesis by simp
  next
    case True
    with "1.prems" obtain F1 u1 A1 where
      pass: "simplify_with_unit_clauses F A = (Some (F1, u1), A1)"
      and rest: "propagate_while u1 F1 A1 = Some (F', A')"
      by (auto simp: propagate_while_True split: prod.splits option.splits)
    from "1.IH"[OF True pass[symmetric] refl refl rest]
    have ih: "A1 \<subseteq>\<^sub>m A'" "dom A' \<subseteq> dom A1 \<union> formula_vars F1" "formula_vars F' \<subseteq> formula_vars F1"
      by blast+
    from pass have "simplify_loop F A [] False = (Some (F1, u1), A1)"
      by (simp add: simplify_with_unit_clauses_def)
    from simplify_loop_mono[OF this] have m: "A \<subseteq>\<^sub>m A1" "dom A1 \<subseteq> dom A \<union> formula_vars F"
      by blast+
    note sub = simplify_vars_subset[OF pass]
    have "A \<subseteq>\<^sub>m A'" using m(1) ih(1) by (rule map_le_trans)
    moreover have "dom A' \<subseteq> dom A \<union> formula_vars F" using ih(2) m(2) sub by blast
    moreover have "formula_vars F' \<subseteq> formula_vars F" using ih(3) sub by blast
    ultimately show ?thesis by simp
  qed
qed

lemma propagate_while_residual:
  "propagate_while u F A = Some (F', A') \<Longrightarrow> u \<Longrightarrow>
     formula_vars F' \<inter> dom A' = {} \<and> (\<forall>c' \<in> set F'. 2 \<le> length c')"
proof (induction u F A rule: propagate_while.induct)
  case (1 u F A)
  from "1.prems" obtain F1 u1 A1 where
    pass: "simplify_with_unit_clauses F A = (Some (F1, u1), A1)"
    and rest: "propagate_while u1 F1 A1 = Some (F', A')"
    by (auto simp: propagate_while_True split: prod.splits option.splits)
  show ?case
  proof (cases u1)
    case True
    from "1.IH"[OF "1.prems"(2) pass[symmetric] refl refl rest True] show ?thesis .
  next
    case False
    with rest have eq: "F' = F1" "A' = A1" by simp_all
    from pass False have run: "simplify_loop F A [] False = (Some (F1, False), A1)"
      by (simp add: simplify_with_unit_clauses_def)
    from simplify_loop_no_unit[OF run] have "A1 = A" "formula_vars F1 \<inter> dom A = {}" by auto
    moreover from simplify_loop_output[OF run] have "\<forall>c' \<in> set F1. 2 \<le> length c'" by auto
    ultimately show ?thesis using eq by simp
  qed
qed

lemma propagate_while_sound:
  "propagate_while u F A = Some (F', A') \<Longrightarrow> c \<in> set F \<Longrightarrow>
     satisfies_clause A' c \<or> (\<exists>c' \<in> set F'. set c' \<subseteq> set c)"
proof (induction u F A arbitrary: c rule: propagate_while.induct)
  case (1 u F A)
  show ?case
  proof (cases u)
    case False
    with 1 show ?thesis by auto
  next
    case True
    with "1.prems" obtain F1 u1 A1 where
      pass: "simplify_with_unit_clauses F A = (Some (F1, u1), A1)"
      and rest: "propagate_while u1 F1 A1 = Some (F', A')"
      by (auto simp: propagate_while_True split: prod.splits option.splits)
    from pass have run: "simplify_loop F A [] False = (Some (F1, u1), A1)"
      by (simp add: simplify_with_unit_clauses_def)
    from simplify_loop_sound[OF run "1.prems"(2)]
    consider "satisfies_clause A1 c" | c1 where "c1 \<in> set F1" "set c1 \<subseteq> set c"
      by auto
    then show ?thesis
    proof cases
      case 1
      from propagate_while_mono[OF rest] have "A1 \<subseteq>\<^sub>m A'" by simp
      from satisfies_clause_mono[OF this 1] show ?thesis ..
    next
      case 2
      from "1.IH"[OF True pass[symmetric] refl refl rest 2(1)]
      show ?thesis using 2(2) satisfies_clause_subset by blast
    qed
  qed
qed

section \<open>\<open>satisfying_assignment\<close>\<close>

text \<open>
  The result of \<open>satisfying_assignment\<close> is \<open>Inr (Some assignment)\<close> for a returned
  dict, \<open>Inr None\<close> for the returned \<open>None\<close>, and \<open>Inl e\<close> when the call raises.

  The tail of \<open>try_assignment\<close>: when the recursive call returned a dict, that dict is
  updated with \<open>temp_assignment\<close> (on a shared key the binding of
  \<open>temp_assignment\<close> stays) and returned; a \<open>None\<close> is passed on, and so is an
  exception of the recursive call.
\<close>

definition update_result ::
  "error + 'v assignment option \<Rightarrow> 'v assignment \<Rightarrow> error + 'v assignment option" where
  "update_result r temp_assignment =
     (case r of
        Inl e \<Rightarrow> Inl e
      | Inr None \<Rightarrow> Inr None
      | Inr (Some assignment) \<Rightarrow> Inr (Some (assignment ++ temp_assignment)))"

text \<open>
  The \<open>for val in [value, not value]\<close> loop over the two trials: the first trial that
  is not \<open>None\<close> ends the loop (a dict is returned, an exception propagates), and the
  \<open>return None\<close> after the loop is the second trial being \<open>None\<close> too.
\<close>

definition first_result ::
  "error + 'v assignment option \<Rightarrow> error + 'v assignment option \<Rightarrow> error + 'v assignment option" where
  "first_result r1 r2 = (case r1 of Inr None \<Rightarrow> r2 | _ \<Rightarrow> r1)"

lemma seed_shrinks:
  assumes "formula \<noteq> []" "formula ! 0 = (variable, val) # rest"
    and "propagate_while True formula [variable \<mapsto> b] = Some (F', A')"
  shows "card (formula_vars F') < card (formula_vars formula)"
proof -
  from propagate_while_mono[OF assms(3)] have le: "[variable \<mapsto> b] \<subseteq>\<^sub>m A'"
    and sub: "formula_vars F' \<subseteq> formula_vars formula" by blast+
  from map_le_implies_dom_le[OF le] have "variable \<in> dom A'" by simp
  with propagate_while_residual[OF assms(3)] have "variable \<notin> formula_vars F'" by auto
  moreover have "formula ! 0 \<in> set formula" using assms(1) by (simp add: nth_mem)
  then have "variable \<in> formula_vars formula"
    using assms(2) by (force simp: formula_vars_def clause_vars_def)
  ultimately have "formula_vars F' \<subset> formula_vars formula" using sub by blast
  then show ?thesis by (intro psubset_card_mono) simp_all
qed

lemma try_assignment_shrinks:
  assumes "propagate_while True formula temp_assignment = Some (F', A')"
  shows "card (formula_vars F') \<le> card (formula_vars formula - dom temp_assignment)"
proof -
  from propagate_while_mono[OF assms] have "temp_assignment \<subseteq>\<^sub>m A'"
    and sub: "formula_vars F' \<subseteq> formula_vars formula" by blast+
  then have "dom temp_assignment \<subseteq> dom A'" by (simp add: map_le_implies_dom_le)
  with propagate_while_residual[OF assms] sub
  have "formula_vars F' \<subseteq> formula_vars formula - dom temp_assignment" by auto
  then show ?thesis by (intro card_mono) simp_all
qed

lemma seed_in_formula:
  assumes "length formula \<noteq> 0" "formula ! 0 = (variable, val) # rest"
  shows "card (formula_vars formula - dom [variable \<mapsto> b]) < card (formula_vars formula)"
proof -
  have "formula ! 0 \<in> set formula" using assms(1) by (simp add: nth_mem)
  then have "variable \<in> formula_vars formula"
    using assms(2) by (force simp: formula_vars_def clause_vars_def)
  then have "card (formula_vars formula - {variable}) < card (formula_vars formula)"
    by (intro card_Diff1_less) simp_all
  then show ?thesis by simp
qed

text \<open>
  \<open>satisfying_assignment\<close> and its nested function \<open>try_assignment\<close>, a closure over
  \<open>formula\<close> that is here a function of \<open>formula\<close> too. \<open>formula[0][0]\<close> raises
  \<open>IndexError\<close> when the first clause is empty. The loop of \<open>try_assignment\<close> starts
  from \<open>formula.copy()\<close>, which has the value of \<open>formula\<close>. The two tests \<open>is None\<close>
  (of \<open>formula\<close> after its length was taken, and of the copy) never hold for a list and
  have no branch here.
\<close>

function satisfying_assignment :: "'v formula \<Rightarrow> error + 'v assignment option"
  and try_assignment :: "'v formula \<Rightarrow> 'v assignment \<Rightarrow> error + 'v assignment option" where
  "satisfying_assignment formula =
     (if length formula = 0 then Inr (Some Map.empty)
      else
        (case formula ! 0 of
           [] \<Rightarrow> Inl IndexError
         | (variable, val) # _ \<Rightarrow>
             first_result (try_assignment formula [variable \<mapsto> val])
               (try_assignment formula [variable \<mapsto> (\<not> val)])))"
| "try_assignment formula temp_assignment =
     (case propagate_while True formula temp_assignment of
        None \<Rightarrow> Inr None
      | Some (simplified_formula, temp_assignment') \<Rightarrow>
          update_result (satisfying_assignment simplified_formula) temp_assignment')"
  by pat_completeness auto
termination
proof (relation "measure (\<lambda>call. case call of
      Inl formula \<Rightarrow> 2 * card (formula_vars formula)
    | Inr (formula, temp_assignment) \<Rightarrow>
        2 * card (formula_vars formula - dom temp_assignment) + 1)", goal_cases)
  case 1
  show ?case by simp
next
  case (2 formula l ls variable val)
  then show ?case using seed_in_formula[of formula variable val ls val] by simp
next
  case (3 formula l ls variable val)
  then show ?case using seed_in_formula[of formula variable val ls "\<not> val"] by simp
next
  case (4 formula temp_assignment p F' A')
  then show ?case using try_assignment_shrinks[of formula temp_assignment F' A'] by simp
qed

declare satisfying_assignment.simps [simp del]
declare try_assignment.simps [simp del]

section \<open>Soundness of the search\<close>

lemma satisfying_assignment_Nil [simp]: "satisfying_assignment [] = Inr (Some Map.empty)"
  by (simp add: satisfying_assignment.simps)

lemma satisfying_assignment_empty_clause [simp]:
  "satisfying_assignment ([] # cs) = Inl IndexError"
  by (simp add: satisfying_assignment.simps)

lemma satisfying_assignment_branch:
  "satisfying_assignment (((v, b) # rest) # cs) =
     first_result (try_assignment (((v, b) # rest) # cs) [v \<mapsto> b])
       (try_assignment (((v, b) # rest) # cs) [v \<mapsto> (\<not> b)])"
  by (subst satisfying_assignment.simps) (simp add: try_assignment.simps)

lemma satisfying_assignment_induct [case_names Empty EmptyClause Branch]:
  assumes "P []"
    and "\<And>cs. P ([] # cs)"
    and "\<And>v b rest cs.
           (\<And>b' F' A'. propagate_while True (((v, b) # rest) # cs) [v \<mapsto> b'] = Some (F', A')
              \<Longrightarrow> P F') \<Longrightarrow> P (((v, b) # rest) # cs)"
  shows "P F"
proof (induction F rule: measure_induct_rule[where f = "\<lambda>F. card (formula_vars F)"])
  case (less F)
  show ?case
  proof (cases F)
    case Nil
    then show ?thesis using assms(1) by simp
  next
    case (Cons c cs)
    show ?thesis
    proof (cases c)
      case Nil
      with Cons show ?thesis using assms(2) by simp
    next
      case (Cons l rest)
      obtain v b where l: "l = (v, b)" by (cases l)
      have F: "F = ((v, b) # rest) # cs" using \<open>F = c # cs\<close> Cons l by simp
      have "P (((v, b) # rest) # cs)"
      proof (rule assms(3))
        fix b' F' A'
        assume "propagate_while True (((v, b) # rest) # cs) [v \<mapsto> b'] = Some (F', A')"
        then have "card (formula_vars F') < card (formula_vars F)"
          using seed_shrinks[of F v b rest b' F' A'] F by simp
        then show "P F'" by (rule less.IH)
      qed
      then show ?thesis using F by simp
    qed
  qed
qed

lemma try_assignment_Some:
  "try_assignment F T = Inr (Some A) \<longleftrightarrow>
     (\<exists>F' A' B. propagate_while True F T = Some (F', A') \<and>
        satisfying_assignment F' = Inr (Some B) \<and> A = B ++ A')"
  by (auto simp: try_assignment.simps update_result_def split: option.splits sum.splits)

lemma try_assignment_None:
  "try_assignment F T = Inr None \<longleftrightarrow>
     (propagate_while True F T = None \<or>
      (\<exists>F' A'. propagate_while True F T = Some (F', A') \<and> satisfying_assignment F' = Inr None))"
  by (auto simp: try_assignment.simps update_result_def split: option.splits sum.splits)

lemma try_assignment_error:
  "try_assignment F T = Inl e \<longleftrightarrow>
     (\<exists>F' A'. propagate_while True F T = Some (F', A') \<and> satisfying_assignment F' = Inl e)"
  by (auto simp: try_assignment.simps update_result_def split: option.splits sum.splits)

lemma first_result_Some:
  "first_result r1 r2 = Inr (Some A) \<longleftrightarrow>
     r1 = Inr (Some A) \<or> (r1 = Inr None \<and> r2 = Inr (Some A))"
  by (auto simp: first_result_def split: sum.splits option.splits)

lemma first_result_None:
  "first_result r1 r2 = Inr None \<longleftrightarrow> r1 = Inr None \<and> r2 = Inr None"
  by (auto simp: first_result_def split: sum.splits option.splits)

lemma first_result_error:
  "first_result r1 r2 = Inl e \<longleftrightarrow> r1 = Inl e \<or> (r1 = Inr None \<and> r2 = Inl e)"
  by (auto simp: first_result_def split: sum.splits option.splits)

lemma satisfying_assignment_no_error:
  "F = [] \<or> hd F \<noteq> [] \<Longrightarrow> satisfying_assignment F \<noteq> Inl e"
proof (induction F rule: satisfying_assignment_induct)
  case Empty
  show ?case by simp
next
  case (EmptyClause cs)
  then show ?case by simp
next
  case (Branch v b rest cs)
  let ?F = "((v, b) # rest) # cs"
  have "try_assignment ?F [v \<mapsto> b'] \<noteq> Inl e" for b'
  proof
    assume "try_assignment ?F [v \<mapsto> b'] = Inl e"
    then obtain F' A' where p: "propagate_while True ?F [v \<mapsto> b'] = Some (F', A')"
      and r: "satisfying_assignment F' = Inl e"
      by (auto simp: try_assignment_error)
    from propagate_while_residual[OF p] have "\<forall>c' \<in> set F'. 2 \<le> length c'" by simp
    then have "F' = [] \<or> hd F' \<noteq> []" by (cases F') auto
    from Branch.IH[OF p this] r show False by simp
  qed
  then show ?case by (auto simp: satisfying_assignment_branch first_result_error)
qed

lemma satisfying_assignment_keys:
  "satisfying_assignment F = Inr (Some A) \<Longrightarrow> dom A \<subseteq> formula_vars F"
proof (induction F arbitrary: A rule: satisfying_assignment_induct)
  case Empty
  then show ?case by auto
next
  case (EmptyClause cs)
  then show ?case by simp
next
  case (Branch v b rest cs)
  let ?F = "((v, b) # rest) # cs"
  from Branch.prems obtain b' where "try_assignment ?F [v \<mapsto> b'] = Inr (Some A)"
    by (auto simp: satisfying_assignment_branch first_result_Some)
  then obtain F' A' B where p: "propagate_while True ?F [v \<mapsto> b'] = Some (F', A')"
    and r: "satisfying_assignment F' = Inr (Some B)" and A: "A = B ++ A'"
    by (auto simp: try_assignment_Some)
  from Branch.IH[OF p r] have "dom B \<subseteq> formula_vars F'" .
  moreover from propagate_while_mono[OF p]
  have "dom A' \<subseteq> dom [v \<mapsto> b'] \<union> formula_vars ?F" "formula_vars F' \<subseteq> formula_vars ?F"
    by blast+
  moreover have "v \<in> formula_vars ?F" by (simp add: clause_vars_def)
  ultimately show ?case using A by auto
qed

lemma try_assignment_disjoint:
  assumes "propagate_while True F T = Some (F', A')"
    and "satisfying_assignment F' = Inr (Some B)"
  shows "dom B \<inter> dom A' = {}"
  using propagate_while_residual[OF assms(1)] satisfying_assignment_keys[OF assms(2)] by auto

lemma satisfying_assignment_sound:
  "satisfying_assignment F = Inr (Some A) \<Longrightarrow> satisfies A F"
proof (induction F arbitrary: A rule: satisfying_assignment_induct)
  case Empty
  then show ?case by (simp add: satisfies_def)
next
  case (EmptyClause cs)
  then show ?case by simp
next
  case (Branch v b rest cs)
  let ?F = "((v, b) # rest) # cs"
  from Branch.prems obtain b' where "try_assignment ?F [v \<mapsto> b'] = Inr (Some A)"
    by (auto simp: satisfying_assignment_branch first_result_Some)
  then obtain F' A' B where p: "propagate_while True ?F [v \<mapsto> b'] = Some (F', A')"
    and r: "satisfying_assignment F' = Inr (Some B)" and A: "A = B ++ A'"
    by (auto simp: try_assignment_Some)
  from Branch.IH[OF p r] have B: "satisfies B F'" .
  note disj = try_assignment_disjoint[OF p r]
  have le1: "A' \<subseteq>\<^sub>m A" unfolding A by (rule map_le_map_add)
  have le2: "B \<subseteq>\<^sub>m A" unfolding A using disj by (simp add: map_add_comm map_le_iff_map_add_commute)
  show ?case unfolding satisfies_iff
  proof
    fix c assume "c \<in> set ?F"
    from propagate_while_sound[OF p this]
    show "satisfies_clause A c"
    proof
      assume "satisfies_clause A' c"
      with le1 show ?thesis by (rule satisfies_clause_mono)
    next
      assume "\<exists>c' \<in> set F'. set c' \<subseteq> set c"
      then obtain c' where c': "c' \<in> set F'" "set c' \<subseteq> set c" by blast
      from B c'(1) have "satisfies_clause B c'" by (simp add: satisfies_iff)
      with le2 have "satisfies_clause A c'" by (rule satisfies_clause_mono)
      with c'(2) show ?thesis by (rule satisfies_clause_subset)
    qed
  qed
qed

section \<open>Completeness of the search\<close>

text \<open>
  A total valuation \<open>M\<close> agrees with a dict when it gives every key the value bound
  to it, and a clause holds under \<open>M\<close> when one of its literals has the value \<open>M\<close>
  gives its variable.
\<close>

definition agrees :: "'v assignment \<Rightarrow> ('v \<Rightarrow> bool) \<Rightarrow> bool" where
  "agrees A M = (\<forall>v b. A v = Some b \<longrightarrow> M v = b)"

definition holds :: "('v \<Rightarrow> bool) \<Rightarrow> 'v clause \<Rightarrow> bool" where
  "holds M c = (\<exists>(v, b) \<in> set c. M v = b)"

lemma holds_unassigned:
  assumes "agrees A M" "holds M c" "\<not> satisfies_clause A c"
  shows "holds M (unassigned_literals A c)"
proof -
  from assms(2) obtain v b where l: "(v, b) \<in> set c" "M v = b" by (auto simp: holds_def)
  have "A v = None"
  proof (cases "A v")
    case None
    then show ?thesis .
  next
    case (Some x)
    with assms(1) l(2) have "x = b" by (simp add: agrees_def)
    with Some l(1) assms(3) show ?thesis by (auto simp: satisfies_clause_iff)
  qed
  with l show ?thesis by (force simp: holds_def unassigned_literals_def)
qed

lemma simplify_loop_complete:
  "agrees A M \<Longrightarrow> \<forall>c \<in> set F. holds M c \<Longrightarrow>
     \<exists>F' u' A'. simplify_loop F A sf u = (Some (F', u'), A') \<and> agrees A' M \<and>
        (\<forall>c' \<in> set (drop (length sf) F'). holds M c')"
proof (induction F A sf u rule: simplify_loop_cases)
  case (Nil A sf u)
  then show ?case by simp
next
  case (Sat c cs A sf u)
  then show ?case by (simp add: simplify_loop_sat)
next
  case (Empty c cs A sf u)
  from holds_unassigned[OF Empty.prems(1) _ Empty.hyps(1)] Empty.prems(2) Empty.hyps(2)
  have False by (simp add: holds_def)
  then show ?case ..
next
  case (Unit c cs A sf u v b)
  from holds_unassigned[OF Unit.prems(1) _ Unit.hyps(1)] Unit.prems(2) Unit.hyps(2)
  have "M v = b" by (simp add: holds_def)
  with Unit.prems(1) have ag: "agrees (A(v \<mapsto> b)) M" by (simp add: agrees_def)
  from Unit.prems(2) have "\<forall>c \<in> set cs. holds M c" by simp
  from Unit.IH[OF ag this] show ?case
    unfolding simplify_loop_unit[OF Unit.hyps] .
next
  case (Many c cs A sf u)
  let ?rem = "unassigned_literals A c"
  from holds_unassigned[OF Many.prems(1) _ Many.hyps(1)] Many.prems(2)
  have rem: "holds M ?rem" by simp
  from Many.prems(2) have "\<forall>c \<in> set cs. holds M c" by simp
  from Many.IH[OF Many.prems(1) this] obtain F' u' A' where
    run: "simplify_loop cs A (sf @ [?rem]) u = (Some (F', u'), A')"
    and ag: "agrees A' M" and h: "\<forall>c' \<in> set (drop (length (sf @ [?rem])) F'). holds M c'"
    by blast
  from simplify_loop_output[OF run] obtain new where F': "F' = (sf @ [?rem]) @ new" by blast
  then have "drop (length sf) F' = ?rem # drop (length (sf @ [?rem])) F'" by simp
  with rem h have "\<forall>c' \<in> set (drop (length sf) F'). holds M c'" by simp
  with run ag Many.hyps show ?case by (simp add: simplify_loop_many)
qed

lemma propagate_while_complete:
  "agrees A M \<Longrightarrow> \<forall>c \<in> set F. holds M c \<Longrightarrow>
     \<exists>F' A'. propagate_while u F A = Some (F', A') \<and> agrees A' M \<and> (\<forall>c' \<in> set F'. holds M c')"
proof (induction u F A rule: propagate_while.induct)
  case (1 u F A)
  show ?case
  proof (cases u)
    case False
    with 1 show ?thesis by simp
  next
    case True
    from simplify_loop_complete[OF "1.prems", of "[]" False] obtain F1 u1 A1 where
      pass: "simplify_with_unit_clauses F A = (Some (F1, u1), A1)"
      and ag: "agrees A1 M" and h: "\<forall>c' \<in> set F1. holds M c'"
      by (auto simp: simplify_with_unit_clauses_def)
    from "1.IH"[OF True pass[symmetric] refl refl ag h]
    show ?thesis using True pass by (simp add: propagate_while_True)
  qed
qed

lemma satisfying_assignment_complete:
  "\<forall>c \<in> set F. holds M c \<Longrightarrow> satisfying_assignment F \<noteq> Inr None"
proof (induction F rule: satisfying_assignment_induct)
  case Empty
  show ?case by simp
next
  case (EmptyClause cs)
  show ?case by simp
next
  case (Branch v b rest cs)
  let ?F = "((v, b) # rest) # cs"
  have "agrees [v \<mapsto> M v] M" by (simp add: agrees_def)
  from propagate_while_complete[OF this Branch.prems, of True] obtain F' A' where
    p: "propagate_while True ?F [v \<mapsto> M v] = Some (F', A')" and h: "\<forall>c' \<in> set F'. holds M c'"
    by blast
  from Branch.IH[OF p h] have "satisfying_assignment F' \<noteq> Inr None" .
  with p have t: "try_assignment ?F [v \<mapsto> M v] \<noteq> Inr None" by (simp add: try_assignment_None)
  have "M v = b \<or> M v = (\<not> b)" by auto
  with t show ?case by (auto simp: satisfying_assignment_branch first_result_None)
qed

lemma satisfies_holds:
  assumes "satisfies M F" "c \<in> set F"
  shows "holds (\<lambda>v. M v = Some True) c"
proof -
  from assms have "satisfies_clause M c" by (simp add: satisfies_iff)
  then obtain v b where l: "(v, b) \<in> set c" "M v = Some b" by (auto simp: satisfies_clause_iff)
  have "(M v = Some True) = b" using l(2) by (cases b) simp_all
  with l(1) show ?thesis unfolding holds_def by (intro bexI[of _ "(v, b)"]) simp_all
qed

lemma satisfying_assignment_None_unsat:
  assumes "satisfying_assignment F = Inr None"
  shows "\<not> satisfies M F"
proof
  assume "satisfies M F"
  then have "\<forall>c \<in> set F. holds (\<lambda>v. M v = Some True) c"
    using satisfies_holds by blast
  from satisfying_assignment_complete[OF this] assms show False by simp
qed

section \<open>Empty clauses and evaluation\<close>

text \<open>The equations that run the solver on a concrete formula.\<close>

lemmas eval_simps = satisfying_assignment_branch try_assignment.simps propagate_while_True
  simplify_with_unit_clauses_def simplify_loop.simps update_result_def first_result_def

lemma simplify_loop_empty_clause:
  "[] \<in> set F \<Longrightarrow> fst (simplify_loop F A sf u) = None"
proof (induction F A sf u rule: simplify_loop_cases)
  case (Nil A sf u)
  then show ?case by simp
next
  case (Sat c cs A sf u)
  from Sat.hyps(1) have "c \<noteq> []" by (auto simp: satisfies_clause_def)
  with Sat.prems have "[] \<in> set cs" by auto
  with Sat.IH show ?case by (simp add: simplify_loop_sat[OF Sat.hyps(1)])
next
  case (Empty c cs A sf u)
  then show ?case by (simp add: simplify_loop_empty)
next
  case (Unit c cs A sf u v b)
  from Unit.hyps(2) have "c \<noteq> []" by (auto simp: unassigned_literals_def)
  with Unit.prems have "[] \<in> set cs" by auto
  from Unit.IH[OF this] show ?case unfolding simplify_loop_unit[OF Unit.hyps(1,2)] .
next
  case (Many c cs A sf u)
  from Many.hyps(2) have "c \<noteq> []" by (auto simp: unassigned_literals_def)
  with Many.prems have "[] \<in> set cs" by auto
  from Many.IH[OF this] show ?case by (simp add: simplify_loop_many[OF Many.hyps(1,2)])
qed

lemma satisfying_assignment_later_empty_clause:
  assumes "[] \<in> set F" "hd F \<noteq> []"
  shows "satisfying_assignment F = Inr None"
proof -
  from assms obtain v b rest cs where F: "F = ((v, b) # rest) # cs"
    by (cases F; cases "hd F") auto
  have "propagate_while True F T = None" for T :: "'a assignment"
    using simplify_loop_empty_clause[OF assms(1), of T "[]" False]
    by (auto simp: propagate_while_True simplify_with_unit_clauses_def split: prod.splits option.splits)
  then show ?thesis
    unfolding F by (simp add: satisfying_assignment_branch try_assignment.simps first_result_def)
qed

lemma satisfying_assignment_returns:
  "F = [] \<or> hd F \<noteq> [] \<Longrightarrow> \<exists>r. satisfying_assignment F = Inr r"
  using satisfying_assignment_no_error[of F] by (cases "satisfying_assignment F") auto

section \<open>One pass as the specification words it\<close>

text \<open>
  The pass of the propagator in the words of the specification (section 4.1 and claim C4):
  a clause with a literal whose variable is assigned the matching value is dropped; of the
  other clauses the literals whose variable is assigned a non-matching value are omitted;
  no remaining literal is a contradiction that ends the call at once; exactly one
  remaining literal is assigned, sets the unit flag and emits nothing; two or more
  remaining literals are appended to the output.
\<close>

fun simplify_spec ::
  "'v formula \<Rightarrow> 'v assignment \<Rightarrow> 'v formula \<Rightarrow> bool \<Rightarrow>
   ('v formula \<times> bool) option \<times> 'v assignment" where
  "simplify_spec [] A out unit_found = (Some (out, unit_found), A)"
| "simplify_spec (clause # rest) A out unit_found =
     (if list_ex (\<lambda>(v, b). A v = Some b) clause then simplify_spec rest A out unit_found
      else
        (let remaining =
           filter (\<lambda>(v, b). \<not> (case A v of Some stored \<Rightarrow> stored \<noteq> b | None \<Rightarrow> False)) clause
         in if length remaining = 0 then (None, A)
            else if length remaining = 1 then
              simplify_spec rest (A(fst (hd remaining) \<mapsto> snd (hd remaining))) out True
            else simplify_spec rest A (out @ [remaining]) unit_found))"

lemma remaining_unassigned:
  assumes "\<not> satisfies_clause A c"
  shows "filter (\<lambda>(v, b). \<not> (case A v of Some stored \<Rightarrow> stored \<noteq> b | None \<Rightarrow> False)) c
    = unassigned_literals A c"
  unfolding unassigned_literals_def
proof (rule filter_cong[OF refl])
  fix l assume l: "l \<in> set c"
  obtain v b where vb: "l = (v, b)" by (cases l)
  with l assms have "A v \<noteq> Some b" by (auto simp: satisfies_clause_iff)
  then show "(case l of (v, b) \<Rightarrow> \<not> (case A v of Some stored \<Rightarrow> stored \<noteq> b | None \<Rightarrow> False))
     = (case l of (v, b) \<Rightarrow> A v = None)"
    unfolding vb by (cases "A v") auto
qed

lemma simplify_loop_spec: "simplify_loop F A sf u = simplify_spec F A sf u"
proof (induction F A sf u rule: simplify_loop_cases)
  case (Nil A sf u)
  show ?case by simp
next
  case (Sat c cs A sf u)
  then show ?case by (simp add: simplify_loop_sat satisfies_clause_def)
next
  case (Empty c cs A sf u)
  then show ?case
    by (simp add: simplify_loop_empty remaining_unassigned satisfies_clause_def[symmetric])
next
  case (Unit c cs A sf u v b)
  show ?case
    unfolding simplify_loop_unit[OF Unit.hyps] Unit.IH
    using Unit.hyps
    by (simp add: remaining_unassigned satisfies_clause_def[symmetric])
next
  case (Many c cs A sf u)
  show ?case
    unfolding simplify_loop_many[OF Many.hyps] Many.IH
    using Many.hyps
    by (auto simp: remaining_unassigned satisfies_clause_def[symmetric] Let_def)
qed

section \<open>Fixpoints of the pass\<close>

lemma simplify_no_unit_fixpoint:
  assumes "simplify_with_unit_clauses F A = (Some (F', False), A')"
  shows "simplify_with_unit_clauses F' A' = (Some (F', False), A')"
proof -
  from assms have run: "simplify_loop F A [] False = (Some (F', False), A')"
    by (simp add: simplify_with_unit_clauses_def)
  from simplify_loop_no_unit[OF run] have "A' = A" "formula_vars F' \<inter> dom A = {}" by auto
  moreover from simplify_loop_output[OF run] have "\<forall>c' \<in> set F'. 2 \<le> length c'" by auto
  ultimately have "\<forall>c \<in> set F'. 2 \<le> length c \<and> clause_vars c \<inter> dom A' = {}"
    by (auto simp: formula_vars_def)
  from simplify_loop_fixpoint[OF this, of "[]" False] show ?thesis
    by (simp add: simplify_with_unit_clauses_def)
qed

lemma propagate_while_fixpoint:
  assumes "propagate_while True F A = Some (F', A')"
  shows "simplify_with_unit_clauses F' A' = (Some (F', False), A')"
proof -
  from propagate_while_residual[OF assms]
  have "\<forall>c \<in> set F'. 2 \<le> length c \<and> clause_vars c \<inter> dom A' = {}"
    by (auto simp: formula_vars_def)
  from simplify_loop_fixpoint[OF this, of "[]" False] show ?thesis
    by (simp add: simplify_with_unit_clauses_def)
qed

lemma simplify_no_unit_residual:
  assumes "simplify_with_unit_clauses F A = (Some (F', False), A')"
  shows "formula_vars F' \<inter> dom A' = {}"
proof -
  from assms have run: "simplify_loop F A [] False = (Some (F', False), A')"
    by (simp add: simplify_with_unit_clauses_def)
  from simplify_loop_no_unit[OF run] show ?thesis by auto
qed

section \<open>The loop over the two polarities\<close>

text \<open>
  The \<open>for val in [value, not value]\<close> loop of \<open>satisfying_assignment\<close>, over the list of
  values it is given: \<open>continue\<close> on \<open>None\<close>, \<open>return assignment\<close> otherwise, and
  \<open>return None\<close> when the list is used up.
\<close>

fun for_val :: "'v formula \<Rightarrow> 'v \<Rightarrow> bool list \<Rightarrow> error + 'v assignment option" where
  "for_val formula variable [] = Inr None"
| "for_val formula variable (val # vals) =
     (case try_assignment formula [variable \<mapsto> val] of
        Inr None \<Rightarrow> for_val formula variable vals
      | Inr (Some assignment) \<Rightarrow> Inr (Some assignment)
      | Inl e \<Rightarrow> Inl e)"

lemma satisfying_assignment_for_val:
  "satisfying_assignment (((v, b) # rest) # cs) = for_val (((v, b) # rest) # cs) v [b, \<not> b]"
  by (simp add: satisfying_assignment_branch first_result_def split: sum.splits option.splits)

lemma try_assignment_seed:
  assumes "try_assignment F [v \<mapsto> b] = Inr (Some A)"
  shows "A v = Some b"
proof -
  from assms obtain F' A' B where p: "propagate_while True F [v \<mapsto> b] = Some (F', A')"
    and A: "A = B ++ A'" by (auto simp: try_assignment_Some)
  from propagate_while_mono[OF p] have "[v \<mapsto> b] \<subseteq>\<^sub>m A'" by simp
  then have "A' v = Some b" by (auto simp: map_le_def)
  then show ?thesis by (simp add: A)
qed

section \<open>Recursion depth and number of passes\<close>

text \<open>
  The search with its call depth counted. \<open>satisfying_assignment_depth n\<close> runs
  \<open>satisfying_assignment\<close> with room for \<open>n\<close> nested activations of the function, and
  is \<open>None\<close> when a call would need one more. \<open>try_assignment_depth\<close> is the closure
  \<open>try_assignment\<close>, given the function it calls recursively.
\<close>

definition try_assignment_depth ::
  "('v formula \<Rightarrow> (error + 'v assignment option) option) \<Rightarrow> 'v formula \<Rightarrow> 'v assignment \<Rightarrow>
   (error + 'v assignment option) option" where
  "try_assignment_depth recursive_call formula temp_assignment =
     (case propagate_while True formula temp_assignment of
        None \<Rightarrow> Some (Inr None)
      | Some (simplified_formula, temp_assignment') \<Rightarrow>
          (case recursive_call simplified_formula of
             None \<Rightarrow> None
           | Some r \<Rightarrow> Some (update_result r temp_assignment')))"

primrec satisfying_assignment_depth ::
  "nat \<Rightarrow> 'v formula \<Rightarrow> (error + 'v assignment option) option" where
  "satisfying_assignment_depth 0 formula = None"
| "satisfying_assignment_depth (Suc n) formula =
     (if length formula = 0 then Some (Inr (Some Map.empty))
      else
        (case formula ! 0 of
           [] \<Rightarrow> Some (Inl IndexError)
         | (variable, val) # _ \<Rightarrow>
             (case try_assignment_depth (satisfying_assignment_depth n) formula
                     [variable \<mapsto> val] of
                None \<Rightarrow> None
              | Some (Inr None) \<Rightarrow>
                  try_assignment_depth (satisfying_assignment_depth n) formula
                    [variable \<mapsto> (\<not> val)]
              | Some r \<Rightarrow> Some r)))"

text \<open>
  The loop of \<open>try_assignment\<close> with its passes counted: \<open>propagate_while_fuel n\<close> runs at
  most \<open>n\<close> calls of \<open>simplify_with_unit_clauses\<close> and is \<open>None\<close> when the loop would
  run one more.
\<close>

primrec propagate_while_fuel ::
  "nat \<Rightarrow> bool \<Rightarrow> 'v formula \<Rightarrow> 'v assignment \<Rightarrow> ('v formula \<times> 'v assignment) option option" where
  "propagate_while_fuel 0 exists_unit_clause simplified_formula temp_assignment =
     (if exists_unit_clause then None else Some (Some (simplified_formula, temp_assignment)))"
| "propagate_while_fuel (Suc n) exists_unit_clause simplified_formula temp_assignment =
     (if exists_unit_clause then
        (case simplify_with_unit_clauses simplified_formula temp_assignment of
           (None, _) \<Rightarrow> Some None
         | (Some (simplified_formula', exists_unit_clause'), temp_assignment') \<Rightarrow>
             propagate_while_fuel n exists_unit_clause' simplified_formula' temp_assignment')
      else Some (Some (simplified_formula, temp_assignment)))"

lemma propagate_while_fuel_enough:
  "(u \<longrightarrow> card (formula_vars F - dom A) < n) \<Longrightarrow>
     propagate_while_fuel n u F A = Some (propagate_while u F A)"
proof (induction n arbitrary: u F A)
  case 0
  then show ?case by simp
next
  case (Suc n)
  show ?case
  proof (cases u)
    case False
    then show ?thesis by simp
  next
    case True
    obtain r A' where pass: "simplify_with_unit_clauses F A = (r, A')"
      by (cases "simplify_with_unit_clauses F A")
    show ?thesis
    proof (cases r)
      case None
      with True pass show ?thesis by (simp add: propagate_while_True)
    next
      case (Some p)
      obtain F' u' where p: "p = (F', u')" by (cases p)
      have "u' \<longrightarrow> card (formula_vars F' - dom A') < n"
      proof
        assume u'
        with pass Some p have "simplify_with_unit_clauses F A = (Some (F', True), A')" by simp
        from simplify_pass_measure[OF this] Suc.prems True show "card (formula_vars F' - dom A') < n"
          by simp
      qed
      from Suc.IH[OF this] True pass Some p show ?thesis by (simp add: propagate_while_True)
    qed
  qed
qed

lemma try_assignment_depth_enough:
  assumes "\<And>F'. card (formula_vars F') < card (formula_vars F) \<Longrightarrow>
             recursive_call F' = Some (satisfying_assignment F')"
    and "F = ((v, b) # rest) # cs"
  shows "try_assignment_depth recursive_call F [v \<mapsto> b'] = Some (try_assignment F [v \<mapsto> b'])"
proof (cases "propagate_while True F [v \<mapsto> b']")
  case None
  then show ?thesis by (simp add: try_assignment_depth_def try_assignment.simps)
next
  case (Some p)
  obtain F' A' where p: "p = (F', A')" by (cases p)
  from Some p have "card (formula_vars F') < card (formula_vars F)"
    using seed_shrinks[of F v b rest b' F' A'] assms(2) by simp
  from assms(1)[OF this] Some p show ?thesis
    by (simp add: try_assignment_depth_def try_assignment.simps)
qed

lemma satisfying_assignment_depth_enough:
  "card (formula_vars (F :: 'v formula)) < n \<Longrightarrow>
     satisfying_assignment_depth n F = Some (satisfying_assignment F)"
proof (induction n arbitrary: F)
  case 0
  then show ?case by simp
next
  case (Suc n)
  show ?case
  proof (cases F)
    case Nil
    then show ?thesis by simp
  next
    case (Cons c cs)
    show ?thesis
    proof (cases c)
      case Nil
      with Cons show ?thesis by simp
    next
      case (Cons l rest)
      obtain v b where l: "l = (v, b)" by (cases l)
      have F: "F = ((v, b) # rest) # cs" using \<open>F = c # cs\<close> Cons l by simp
      have rec: "satisfying_assignment_depth n F' = Some (satisfying_assignment F')"
        if "card (formula_vars F') < card (formula_vars F)" for F' :: "'v formula"
      proof (rule Suc.IH)
        from that Suc.prems show "card (formula_vars F') < n" by simp
      qed
      have t: "try_assignment_depth (satisfying_assignment_depth n) F [v \<mapsto> b']
          = Some (try_assignment F [v \<mapsto> b'])" for b'
        using rec F by (rule try_assignment_depth_enough)
      have "satisfying_assignment_depth (Suc n) F
          = (case try_assignment_depth (satisfying_assignment_depth n) F [v \<mapsto> b] of
                None \<Rightarrow> None
              | Some (Inr None) \<Rightarrow>
                  try_assignment_depth (satisfying_assignment_depth n) F [v \<mapsto> (\<not> b)]
              | Some r \<Rightarrow> Some r)"
        unfolding F by simp
      also have "\<dots> = Some (first_result (try_assignment F [v \<mapsto> b]) (try_assignment F [v \<mapsto> (\<not> b)]))"
        unfolding t by (simp add: first_result_def split: sum.splits option.splits)
      also have "\<dots> = Some (satisfying_assignment F)"
        unfolding F by (simp add: satisfying_assignment_branch)
      finally show ?thesis .
    qed
  qed
qed

lemma simplify_unit_assigns:
  assumes "simplify_with_unit_clauses G T = (Some (G', True), T')"
  shows "T \<subseteq>\<^sub>m T' \<and> (\<exists>x \<in> formula_vars G. x \<notin> dom T \<and> x \<in> dom T')"
proof -
  from assms have run: "simplify_loop G T [] False = (Some (G', True), T')"
    by (simp add: simplify_with_unit_clauses_def)
  from simplify_loop_mono[OF run] have "T \<subseteq>\<^sub>m T'" by simp
  moreover from simplify_loop_unit_progress[OF run]
  have "\<exists>x \<in> formula_vars G. x \<notin> dom T \<and> x \<in> dom T'" by (auto simp: dom_def)
  ultimately show ?thesis by simp
qed

lemma seed_removed:
  assumes "propagate_while True (((v, b) # rest) # cs) [v \<mapsto> b'] = Some (F', A')"
  shows "v \<notin> formula_vars F'"
proof -
  from propagate_while_mono[OF assms] have "[v \<mapsto> b'] \<subseteq>\<^sub>m A'" by simp
  from map_le_implies_dom_le[OF this] have "v \<in> dom A'" by simp
  with propagate_while_residual[OF assms] show ?thesis by auto
qed

section \<open>The solver on a store of objects\<close>

text \<open>
  The pure functions above return new values and so cannot say which Python object a
  statement writes to. Here the same code runs on an explicit store of the three kinds of
  mutable objects it handles: formula lists (lists of references to clause lists), clause
  lists (lists of literal tuples, which are immutable) and dicts. An object is named by
  its index in the store; creating an object appends it to the store.
\<close>

record 'v heap =
  formula_objs :: "nat list list"
  clause_objs :: "'v clause list"
  dict_objs :: "'v assignment list"

text \<open>
  The statements of the source that create or write objects: \<open>[]\<close>, \<open>formula.copy()\<close>
  and \<open>{...}\<close> create; \<open>append\<close>, \<open>assignments[k] = x\<close> and \<open>update\<close> write.
\<close>

definition new_formula :: "nat list \<Rightarrow> 'v heap \<Rightarrow> nat \<times> 'v heap" where
  "new_formula refs h = (length (formula_objs h), h\<lparr>formula_objs := formula_objs h @ [refs]\<rparr>)"

definition new_clause :: "'v heap \<Rightarrow> nat \<times> 'v heap" where
  "new_clause h = (length (clause_objs h), h\<lparr>clause_objs := clause_objs h @ [[]]\<rparr>)"

definition new_dict :: "'v assignment \<Rightarrow> 'v heap \<Rightarrow> nat \<times> 'v heap" where
  "new_dict m h = (length (dict_objs h), h\<lparr>dict_objs := dict_objs h @ [m]\<rparr>)"

definition clause_append :: "nat \<Rightarrow> 'v literal \<Rightarrow> 'v heap \<Rightarrow> 'v heap" where
  "clause_append c l h = h\<lparr>clause_objs := (clause_objs h)[c := clause_objs h ! c @ [l]]\<rparr>"

definition formula_append :: "nat \<Rightarrow> nat \<Rightarrow> 'v heap \<Rightarrow> 'v heap" where
  "formula_append f c h = h\<lparr>formula_objs := (formula_objs h)[f := formula_objs h ! f @ [c]]\<rparr>"

definition dict_set :: "nat \<Rightarrow> 'v \<Rightarrow> bool \<Rightarrow> 'v heap \<Rightarrow> 'v heap" where
  "dict_set d k x h = h\<lparr>dict_objs := (dict_objs h)[d := (dict_objs h ! d)(k \<mapsto> x)]\<rparr>"

definition dict_update :: "nat \<Rightarrow> nat \<Rightarrow> 'v heap \<Rightarrow> 'v heap" where
  "dict_update d other h =
     h\<lparr>dict_objs := (dict_objs h)[d := (dict_objs h ! d) ++ (dict_objs h ! other)]\<rparr>"

text \<open>
  \<open>simplify_with_unit_clauses\<close> on the store. \<open>formula\<close> and \<open>assignments\<close> are the
  references the caller passes; \<open>simplified_formula\<close> and \<open>simplified_clause\<close> are
  references to the lists the function creates. In \<open>h_scan_clause\<close> the result \<open>False\<close>
  is the \<open>break\<close>.
\<close>

fun h_scan_clause :: "'v clause \<Rightarrow> nat \<Rightarrow> nat \<Rightarrow> 'v heap \<Rightarrow> bool \<times> 'v heap" where
  "h_scan_clause [] assignments simplified_clause h = (True, h)"
| "h_scan_clause ((variable, val) # rest) assignments simplified_clause h =
     (case (dict_objs h ! assignments) variable of
        Some stored \<Rightarrow>
          (if stored = val then (False, h)
           else h_scan_clause rest assignments simplified_clause h)
      | None \<Rightarrow>
          h_scan_clause rest assignments simplified_clause
            (clause_append simplified_clause (variable, val) h))"

fun h_simplify_loop ::
  "nat list \<Rightarrow> nat \<Rightarrow> nat \<Rightarrow> bool \<Rightarrow> 'v heap \<Rightarrow> (nat \<times> bool) option \<times> 'v heap" where
  "h_simplify_loop [] assignments simplified_formula exists_unit_clause h =
     (Some (simplified_formula, exists_unit_clause), h)"
| "h_simplify_loop (clause # rest) assignments simplified_formula exists_unit_clause h =
     (case new_clause h of
        (simplified_clause, h1) \<Rightarrow>
          (case h_scan_clause (clause_objs h1 ! clause) assignments simplified_clause h1 of
             (False, h2) \<Rightarrow>
               h_simplify_loop rest assignments simplified_formula exists_unit_clause h2
           | (True, h2) \<Rightarrow>
               (if length (clause_objs h2 ! simplified_clause) = 0 then (None, h2)
                else if length (clause_objs h2 ! simplified_clause) = 1 then
                  (case clause_objs h2 ! simplified_clause ! 0 of
                     (clause_var, clause_val) \<Rightarrow>
                       h_simplify_loop rest assignments simplified_formula True
                         (dict_set assignments clause_var clause_val h2))
                else
                  h_simplify_loop rest assignments simplified_formula exists_unit_clause
                    (formula_append simplified_formula simplified_clause h2))))"

definition h_simplify_with_unit_clauses ::
  "nat \<Rightarrow> nat \<Rightarrow> 'v heap \<Rightarrow> (nat \<times> bool) option \<times> 'v heap" where
  "h_simplify_with_unit_clauses formula assignments h =
     (case new_formula [] h of
        (simplified_formula, h1) \<Rightarrow>
          h_simplify_loop (formula_objs h1 ! formula) assignments simplified_formula False h1)"

text \<open>
  The loop of \<open>try_assignment\<close> and the search on the store, with the passes of the loop
  and the nested calls counted as in \<open>propagate_while_fuel\<close> and
  \<open>satisfying_assignment_depth\<close>: the result \<open>None\<close> is a count used up, and the store
  is returned in every case.
\<close>

primrec h_propagate_while ::
  "nat \<Rightarrow> bool \<Rightarrow> nat \<Rightarrow> nat \<Rightarrow> 'v heap \<Rightarrow> nat option option \<times> 'v heap" where
  "h_propagate_while 0 exists_unit_clause simplified_formula temp_assignment h =
     (if exists_unit_clause then (None, h) else (Some (Some simplified_formula), h))"
| "h_propagate_while (Suc n) exists_unit_clause simplified_formula temp_assignment h =
     (if exists_unit_clause then
        (case h_simplify_with_unit_clauses simplified_formula temp_assignment h of
           (None, h1) \<Rightarrow> (Some None, h1)
         | (Some (simplified_formula', exists_unit_clause'), h1) \<Rightarrow>
             h_propagate_while n exists_unit_clause' simplified_formula' temp_assignment h1)
      else (Some (Some simplified_formula), h))"

type_synonym h_result = "(error + nat option) option"

definition h_try_assignment ::
  "(nat \<Rightarrow> 'v heap \<Rightarrow> h_result \<times> 'v heap) \<Rightarrow> nat \<Rightarrow> nat \<Rightarrow> nat \<Rightarrow> 'v heap \<Rightarrow>
   h_result \<times> 'v heap" where
  "h_try_assignment recursive_call passes formula temp_assignment h =
     (case new_formula (formula_objs h ! formula) h of
        (simplified_formula, h1) \<Rightarrow>
          (case h_propagate_while passes True simplified_formula temp_assignment h1 of
             (None, h2) \<Rightarrow> (None, h2)
           | (Some None, h2) \<Rightarrow> (Some (Inr None), h2)
           | (Some (Some simplified_formula'), h2) \<Rightarrow>
               (case recursive_call simplified_formula' h2 of
                  (Some (Inr (Some assignment)), h3) \<Rightarrow>
                    (Some (Inr (Some assignment)), dict_update assignment temp_assignment h3)
                | (r, h3) \<Rightarrow> (r, h3))))"

fun h_for_val ::
  "(nat \<Rightarrow> 'v heap \<Rightarrow> h_result \<times> 'v heap) \<Rightarrow> 'v \<Rightarrow> bool list \<Rightarrow> 'v heap \<Rightarrow>
   h_result \<times> 'v heap" where
  "h_for_val try variable [] h = (Some (Inr None), h)"
| "h_for_val try variable (val # vals) h =
     (case new_dict [variable \<mapsto> val] h of
        (temp_assignment, h1) \<Rightarrow>
          (case try temp_assignment h1 of
             (Some (Inr None), h2) \<Rightarrow> h_for_val try variable vals h2
           | (r, h2) \<Rightarrow> (r, h2)))"

primrec h_satisfying_assignment :: "nat \<Rightarrow> nat \<Rightarrow> 'v heap \<Rightarrow> h_result \<times> 'v heap" where
  "h_satisfying_assignment 0 formula h = (None, h)"
| "h_satisfying_assignment (Suc n) formula h =
     (if length (formula_objs h ! formula) = 0 then
        (case new_dict Map.empty h of (assignment, h1) \<Rightarrow> (Some (Inr (Some assignment)), h1))
      else
        (case clause_objs h ! (formula_objs h ! formula ! 0) of
           [] \<Rightarrow> (Some (Inl IndexError), h)
         | (variable, val) # _ \<Rightarrow>
             h_for_val (h_try_assignment (h_satisfying_assignment n) n formula)
               variable [val, \<not> val] h))"

section \<open>What the solver leaves unchanged in the store\<close>

text \<open>
  \<open>frame nf nc nd h h'\<close>: the store \<open>h'\<close> has every object of \<open>h\<close>, and the first
  \<open>nf\<close> formula lists, \<open>nc\<close> clause lists and \<open>nd\<close> dicts of \<open>h\<close> are unchanged in it.
\<close>

definition same_below :: "nat \<Rightarrow> 'a list \<Rightarrow> 'a list \<Rightarrow> bool" where
  "same_below n xs ys = (n \<le> length xs \<and> length xs \<le> length ys \<and> (\<forall>i<n. ys ! i = xs ! i))"

definition frame :: "nat \<Rightarrow> nat \<Rightarrow> nat \<Rightarrow> 'v heap \<Rightarrow> 'v heap \<Rightarrow> bool" where
  "frame nf nc nd h h' =
     (same_below nf (formula_objs h) (formula_objs h') \<and>
      same_below nc (clause_objs h) (clause_objs h') \<and>
      same_below nd (dict_objs h) (dict_objs h'))"

lemma same_below_refl: "n \<le> length xs \<Longrightarrow> same_below n xs xs"
  by (simp add: same_below_def)

lemma same_below_trans:
  "same_below n xs ys \<Longrightarrow> same_below n ys zs \<Longrightarrow> same_below n xs zs"
  by (auto simp: same_below_def)

lemma same_below_weaken:
  "same_below n xs ys \<Longrightarrow> m \<le> n \<Longrightarrow> same_below m xs ys"
  by (auto simp: same_below_def)

lemma same_below_append: "n \<le> length xs \<Longrightarrow> same_below n xs (xs @ zs)"
  by (auto simp: same_below_def nth_append)

lemma same_below_update: "n \<le> length xs \<Longrightarrow> n \<le> i \<Longrightarrow> same_below n xs (xs[i := x])"
  by (auto simp: same_below_def)

lemma same_below_take:
  "same_below (length xs) xs ys \<Longrightarrow> take (length xs) ys = xs"
  by (auto simp: same_below_def intro!: nth_equalityI)

lemma frame_refl:
  "nf \<le> length (formula_objs h) \<Longrightarrow> nc \<le> length (clause_objs h) \<Longrightarrow>
   nd \<le> length (dict_objs h) \<Longrightarrow> frame nf nc nd h h"
  by (simp add: frame_def same_below_refl)

lemma frame_trans:
  "frame nf nc nd h h1 \<Longrightarrow> frame nf nc nd h1 h2 \<Longrightarrow> frame nf nc nd h h2"
  unfolding frame_def by (blast intro: same_below_trans)

lemma frame_weaken:
  "frame nf nc nd h h' \<Longrightarrow> nf' \<le> nf \<Longrightarrow> nc' \<le> nc \<Longrightarrow> nd' \<le> nd \<Longrightarrow> frame nf' nc' nd' h h'"
  unfolding frame_def by (blast intro: same_below_weaken)

lemma frame_bounds:
  assumes "frame nf nc nd h h'"
  shows "nf \<le> length (formula_objs h')" "nc \<le> length (clause_objs h')"
    "nd \<le> length (dict_objs h')"
    "length (formula_objs h) \<le> length (formula_objs h')"
    "length (clause_objs h) \<le> length (clause_objs h')"
    "length (dict_objs h) \<le> length (dict_objs h')"
  using assms by (auto simp: frame_def same_below_def)

lemma frame_new_formula:
  assumes "frame nf nc nd h0 h" "new_formula refs h = (f, h1)"
  shows "frame nf nc nd h0 h1" "f = length (formula_objs h)" "f < length (formula_objs h1)"
    "dict_objs h1 = dict_objs h" "clause_objs h1 = clause_objs h"
proof -
  from assms(2) have h1: "h1 = h\<lparr>formula_objs := formula_objs h @ [refs]\<rparr>"
    and f: "f = length (formula_objs h)" by (auto simp: new_formula_def)
  have "frame nf nc nd h h1"
    using frame_bounds[OF assms(1)]
    by (simp add: frame_def h1 same_below_refl same_below_append)
  with assms(1) show "frame nf nc nd h0 h1" by (rule frame_trans)
  show "f = length (formula_objs h)" by (rule f)
  show "f < length (formula_objs h1)" by (simp add: f h1)
  show "dict_objs h1 = dict_objs h" "clause_objs h1 = clause_objs h" by (simp_all add: h1)
qed

lemma frame_new_clause:
  assumes "frame nf nc nd h0 h" "new_clause h = (c, h1)"
  shows "frame nf nc nd h0 h1" "c = length (clause_objs h)" "c < length (clause_objs h1)"
    "dict_objs h1 = dict_objs h" "formula_objs h1 = formula_objs h"
proof -
  from assms(2) have h1: "h1 = h\<lparr>clause_objs := clause_objs h @ [[]]\<rparr>"
    and c: "c = length (clause_objs h)" by (auto simp: new_clause_def)
  have "frame nf nc nd h h1"
    using frame_bounds[OF assms(1)]
    by (simp add: frame_def h1 same_below_refl same_below_append)
  with assms(1) show "frame nf nc nd h0 h1" by (rule frame_trans)
  show "c = length (clause_objs h)" by (rule c)
  show "c < length (clause_objs h1)" by (simp add: c h1)
  show "dict_objs h1 = dict_objs h" "formula_objs h1 = formula_objs h" by (simp_all add: h1)
qed

lemma frame_new_dict:
  assumes "frame nf nc nd h0 h" "new_dict m h = (d, h1)"
  shows "frame nf nc nd h0 h1" "d = length (dict_objs h)" "d < length (dict_objs h1)"
proof -
  from assms(2) have h1: "h1 = h\<lparr>dict_objs := dict_objs h @ [m]\<rparr>"
    and d: "d = length (dict_objs h)" by (auto simp: new_dict_def)
  have "frame nf nc nd h h1"
    using frame_bounds[OF assms(1)]
    by (simp add: frame_def h1 same_below_refl same_below_append)
  with assms(1) show "frame nf nc nd h0 h1" by (rule frame_trans)
  show "d = length (dict_objs h)" by (rule d)
  show "d < length (dict_objs h1)" by (simp add: d h1)
qed

lemma frame_clause_append:
  assumes "frame nf nc nd h0 h" "nc \<le> c"
  shows "frame nf nc nd h0 (clause_append c l h)"
proof -
  have "frame nf nc nd h (clause_append c l h)"
    using frame_bounds[OF assms(1)] assms(2)
    by (simp add: frame_def clause_append_def same_below_refl same_below_update)
  with assms(1) show ?thesis by (rule frame_trans)
qed

lemma frame_formula_append:
  assumes "frame nf nc nd h0 h" "nf \<le> f"
  shows "frame nf nc nd h0 (formula_append f c h)"
proof -
  have "frame nf nc nd h (formula_append f c h)"
    using frame_bounds[OF assms(1)] assms(2)
    by (simp add: frame_def formula_append_def same_below_refl same_below_update)
  with assms(1) show ?thesis by (rule frame_trans)
qed

lemma frame_dict_set:
  assumes "frame nf nc nd h0 h" "nd \<le> d"
  shows "frame nf nc nd h0 (dict_set d k x h)"
proof -
  have "frame nf nc nd h (dict_set d k x h)"
    using frame_bounds[OF assms(1)] assms(2)
    by (simp add: frame_def dict_set_def same_below_refl same_below_update)
  with assms(1) show ?thesis by (rule frame_trans)
qed

lemma frame_dict_update:
  assumes "frame nf nc nd h0 h" "nd \<le> d"
  shows "frame nf nc nd h0 (dict_update d other h)"
proof -
  have "frame nf nc nd h (dict_update d other h)"
    using frame_bounds[OF assms(1)] assms(2)
    by (simp add: frame_def dict_update_def same_below_refl same_below_update)
  with assms(1) show ?thesis by (rule frame_trans)
qed

lemma frame_h_scan_clause:
  "h_scan_clause ls a sc h = (b, h') \<Longrightarrow> frame nf nc nd h0 h \<Longrightarrow> nc \<le> sc \<Longrightarrow>
     frame nf nc nd h0 h'"
proof (induction ls a sc h rule: h_scan_clause.induct)
  case (1 a sc h)
  then show ?case by simp
next
  case (2 variable val rest a sc h)
  show ?case
  proof (cases "(dict_objs h ! a) variable")
    case None
    from "2.prems"(1) None
    have run: "h_scan_clause rest a sc (clause_append sc (variable, val) h) = (b, h')" by simp
    from frame_clause_append[OF "2.prems"(2,3)]
    have "frame nf nc nd h0 (clause_append sc (variable, val) h)" .
    from "2.IH"(1)[OF None run this "2.prems"(3)] show ?thesis .
  next
    case (Some stored)
    show ?thesis
    proof (cases "stored = val")
      case True
      with "2.prems" Some show ?thesis by simp
    next
      case False
      with "2.prems"(1) Some have run: "h_scan_clause rest a sc h = (b, h')" by simp
      from "2.IH"(2)[OF Some False run "2.prems"(2,3)] show ?thesis .
    qed
  qed
qed

lemma h_scan_clause_dicts:
  "h_scan_clause ls a sc h = (b, h') \<Longrightarrow> dict_objs h' = dict_objs h"
  by (induction ls a sc h rule: h_scan_clause.induct)
     (auto simp: clause_append_def split: option.splits if_splits)

lemma frame_h_simplify_loop:
  "h_simplify_loop cs a sf u h = (r, h') \<Longrightarrow> frame nf nc nd h0 h \<Longrightarrow> nf \<le> sf \<Longrightarrow> nd \<le> a \<Longrightarrow>
     frame nf nc nd h0 h'"
proof (induction cs arbitrary: u h)
  case Nil
  then show ?case by simp
next
  case (Cons c cs)
  obtain sc h1 where nc: "new_clause h = (sc, h1)" by (cases "new_clause h")
  obtain b h2 where sc: "h_scan_clause (clause_objs h1 ! c) a sc h1 = (b, h2)"
    by (cases "h_scan_clause (clause_objs h1 ! c) a sc h1")
  note f1 = frame_new_clause[OF Cons.prems(2) nc]
  have "nc \<le> sc" using f1(2) frame_bounds(2)[OF Cons.prems(2)] by simp
  from frame_h_scan_clause[OF sc f1(1) this] have f2: "frame nf nc nd h0 h2" .
  show ?case
  proof (cases b)
    case False
    with Cons.prems(1) nc sc have "h_simplify_loop cs a sf u h2 = (r, h')" by simp
    from Cons.IH[OF this f2 Cons.prems(3,4)] show ?thesis .
  next
    case True
    consider (zero) "length (clause_objs h2 ! sc) = 0"
      | (one) "length (clause_objs h2 ! sc) = 1"
      | (many) "length (clause_objs h2 ! sc) \<noteq> 0" "length (clause_objs h2 ! sc) \<noteq> 1"
      by blast
    then show ?thesis
    proof cases
      case zero
      with Cons.prems(1) nc sc True have "h' = h2" by simp
      with f2 show ?thesis by simp
    next
      case one
      obtain cv cval where l: "clause_objs h2 ! sc ! 0 = (cv, cval)"
        by (cases "clause_objs h2 ! sc ! 0")
      from one have "clause_objs h2 ! sc \<noteq> []" by auto
      with Cons.prems(1) nc sc True one l
      have "h_simplify_loop cs a sf True (dict_set a cv cval h2) = (r, h')" by simp
      from Cons.IH[OF this frame_dict_set[OF f2 Cons.prems(4)] Cons.prems(3,4)] show ?thesis .
    next
      case many
      with Cons.prems(1) nc sc True
      have "h_simplify_loop cs a sf u (formula_append sf sc h2) = (r, h')" by simp
      from Cons.IH[OF this frame_formula_append[OF f2 Cons.prems(3)] Cons.prems(3,4)]
      show ?thesis .
    qed
  qed
qed

lemma h_simplify_loop_dicts:
  "h_simplify_loop cs a sf u h = (r, h') \<Longrightarrow>
     length (dict_objs h') = length (dict_objs h) \<and>
     (\<forall>i. i \<noteq> a \<longrightarrow> dict_objs h' ! i = dict_objs h ! i)"
proof (induction cs arbitrary: u h)
  case Nil
  then show ?case by simp
next
  case (Cons c cs)
  obtain sc h1 where nc: "new_clause h = (sc, h1)" by (cases "new_clause h")
  obtain b h2 where sc: "h_scan_clause (clause_objs h1 ! c) a sc h1 = (b, h2)"
    by (cases "h_scan_clause (clause_objs h1 ! c) a sc h1")
  from nc have "dict_objs h1 = dict_objs h" by (auto simp: new_clause_def)
  with h_scan_clause_dicts[OF sc] have d2: "dict_objs h2 = dict_objs h" by simp
  show ?case
  proof (cases b)
    case False
    with Cons.prems(1) nc sc have "h_simplify_loop cs a sf u h2 = (r, h')" by simp
    from Cons.IH[OF this] d2 show ?thesis by simp
  next
    case True
    consider (zero) "length (clause_objs h2 ! sc) = 0"
      | (one) "length (clause_objs h2 ! sc) = 1"
      | (many) "length (clause_objs h2 ! sc) \<noteq> 0" "length (clause_objs h2 ! sc) \<noteq> 1"
      by blast
    then show ?thesis
    proof cases
      case zero
      with Cons.prems(1) nc sc True have "h' = h2" by simp
      with d2 show ?thesis by simp
    next
      case one
      obtain cv cval where l: "clause_objs h2 ! sc ! 0 = (cv, cval)"
        by (cases "clause_objs h2 ! sc ! 0")
      from one have "clause_objs h2 ! sc \<noteq> []" by auto
      with Cons.prems(1) nc sc True one l
      have "h_simplify_loop cs a sf True (dict_set a cv cval h2) = (r, h')" by simp
      from Cons.IH[OF this] d2 show ?thesis by (simp add: dict_set_def)
    next
      case many
      with Cons.prems(1) nc sc True
      have "h_simplify_loop cs a sf u (formula_append sf sc h2) = (r, h')" by simp
      from Cons.IH[OF this] d2 show ?thesis by (simp add: formula_append_def)
    qed
  qed
qed

lemma frame_h_simplify:
  assumes "h_simplify_with_unit_clauses f a h = (r, h')" "frame nf nc nd h0 h" "nd \<le> a"
  shows "frame nf nc nd h0 h'"
proof -
  obtain sf h1 where nf: "new_formula [] h = (sf, h1)" by (cases "new_formula [] h")
  note f1 = frame_new_formula[OF assms(2) nf]
  have le: "nf \<le> sf" using f1(2) frame_bounds(1)[OF assms(2)] by simp
  from assms(1) nf have "h_simplify_loop (formula_objs h1 ! f) a sf False h1 = (r, h')"
    by (simp add: h_simplify_with_unit_clauses_def)
  from frame_h_simplify_loop[OF this f1(1) le assms(3)] show ?thesis .
qed

lemma h_simplify_dicts:
  assumes "h_simplify_with_unit_clauses f a h = (r, h')"
  shows "length (dict_objs h') = length (dict_objs h) \<and>
     (\<forall>i. i \<noteq> a \<longrightarrow> dict_objs h' ! i = dict_objs h ! i)"
proof -
  obtain sf h1 where nf: "new_formula [] h = (sf, h1)" by (cases "new_formula [] h")
  then have d: "dict_objs h1 = dict_objs h" by (auto simp: new_formula_def)
  from assms nf have "h_simplify_loop (formula_objs h1 ! f) a sf False h1 = (r, h')"
    by (simp add: h_simplify_with_unit_clauses_def)
  from h_simplify_loop_dicts[OF this] d show ?thesis by simp
qed

lemma frame_h_propagate_while:
  "h_propagate_while n u sf t h = (r, h') \<Longrightarrow> frame nf nc nd h0 h \<Longrightarrow> nd \<le> t \<Longrightarrow>
     frame nf nc nd h0 h'"
proof (induction n arbitrary: u sf h)
  case 0
  then show ?case by (auto split: if_splits)
next
  case (Suc n)
  show ?case
  proof (cases u)
    case False
    with Suc.prems show ?thesis by simp
  next
    case True
    obtain r1 h1 where pass: "h_simplify_with_unit_clauses sf t h = (r1, h1)"
      by (cases "h_simplify_with_unit_clauses sf t h")
    from frame_h_simplify[OF pass Suc.prems(2,3)] have f1: "frame nf nc nd h0 h1" .
    show ?thesis
    proof (cases r1)
      case None
      with Suc.prems(1) True pass have "h' = h1" by simp
      with f1 show ?thesis by simp
    next
      case (Some p)
      obtain sf' u' where "p = (sf', u')" by (cases p)
      with Suc.prems(1) True pass Some have "h_propagate_while n u' sf' t h1 = (r, h')" by simp
      from Suc.IH[OF this f1 Suc.prems(3)] show ?thesis .
    qed
  qed
qed

text \<open>
  What a call of the search keeps: every object of the store it is called on, and a dict
  it returns is one it has created.
\<close>

definition returns_fresh_dict :: "'v heap \<Rightarrow> h_result \<Rightarrow> 'v heap \<Rightarrow> bool" where
  "returns_fresh_dict h r h' =
     (\<forall>d. r = Some (Inr (Some d)) \<longrightarrow> length (dict_objs h) \<le> d \<and> d < length (dict_objs h'))"

definition call_frame :: "(nat \<Rightarrow> 'v heap \<Rightarrow> h_result \<times> 'v heap) \<Rightarrow> bool" where
  "call_frame call =
     (\<forall>f h r h'. call f h = (r, h') \<longrightarrow>
        frame (length (formula_objs h)) (length (clause_objs h)) (length (dict_objs h)) h h' \<and>
        returns_fresh_dict h r h')"

lemma frame_h_try_assignment:
  assumes call: "call_frame recursive_call"
    and run: "h_try_assignment recursive_call passes f t h = (r, h')"
    and fr: "frame nf nc nd h0 h" and t: "nd \<le> t"
  shows "frame nf nc nd h0 h' \<and> returns_fresh_dict h0 r h'"
proof -
  obtain sf h1 where nf: "new_formula (formula_objs h ! f) h = (sf, h1)"
    by (cases "new_formula (formula_objs h ! f) h")
  obtain r2 h2 where p: "h_propagate_while passes True sf t h1 = (r2, h2)"
    by (cases "h_propagate_while passes True sf t h1")
  note f1 = frame_new_formula(1)[OF fr nf]
  from frame_h_propagate_while[OF p f1 t] have f2: "frame nf nc nd h0 h2" .
  show ?thesis
  proof (cases r2)
    case None
    with run nf p have "r = None" "h' = h2" by (simp_all add: h_try_assignment_def)
    with f2 show ?thesis by (simp add: returns_fresh_dict_def)
  next
    case (Some q)
    show ?thesis
    proof (cases q)
      case None
      with run nf p Some have "r = Some (Inr None)" "h' = h2"
        by (simp_all add: h_try_assignment_def)
      with f2 show ?thesis by (simp add: returns_fresh_dict_def)
    next
      case (Some sf')
      obtain r3 h3 where rc: "recursive_call sf' h2 = (r3, h3)"
        by (cases "recursive_call sf' h2")
      from call rc have f3': "frame (length (formula_objs h2)) (length (clause_objs h2))
          (length (dict_objs h2)) h2 h3" and fresh: "returns_fresh_dict h2 r3 h3"
        by (auto simp: call_frame_def)
      from frame_weaken[OF f3' frame_bounds(1,2,3)[OF f2]] have "frame nf nc nd h2 h3" .
      with f2 have f3: "frame nf nc nd h0 h3" by (rule frame_trans)
      show ?thesis
      proof (cases "\<exists>d. r3 = Some (Inr (Some d))")
        case True
        then obtain d where d: "r3 = Some (Inr (Some d))" by blast
        with fresh have dl: "length (dict_objs h2) \<le> d" "d < length (dict_objs h3)"
          by (auto simp: returns_fresh_dict_def)
        from run nf p \<open>r2 = Some q\<close> Some rc d
        have res: "r = Some (Inr (Some d))" "h' = dict_update d t h3"
          by (simp_all add: h_try_assignment_def)
        have "nd \<le> d" using dl(1) frame_bounds(3)[OF f2] by simp
        from frame_dict_update[OF f3 this] have "frame nf nc nd h0 h'" by (simp add: res)
        moreover have "length (dict_objs h0) \<le> d"
          using dl(1) frame_bounds(6)[OF f2] by simp
        moreover have "d < length (dict_objs h')" using dl(2) by (simp add: res dict_update_def)
        ultimately show ?thesis by (simp add: returns_fresh_dict_def res)
      next
        case False
        with run nf p \<open>r2 = Some q\<close> Some rc have res: "r = r3" "h' = h3"
          by (auto simp: h_try_assignment_def split: option.splits sum.splits)
        with f3 False show ?thesis by (simp add: returns_fresh_dict_def)
      qed
    qed
  qed
qed

lemma frame_h_for_val:
  assumes "\<And>t h r h'. try t h = (r, h') \<Longrightarrow> frame nf nc nd h0 h \<Longrightarrow> nd \<le> t \<Longrightarrow>
      frame nf nc nd h0 h' \<and> returns_fresh_dict h0 r h'"
  shows "h_for_val try variable vals h = (r, h') \<Longrightarrow> frame nf nc nd h0 h \<Longrightarrow>
     frame nf nc nd h0 h' \<and> returns_fresh_dict h0 r h'"
proof (induction vals arbitrary: h)
  case Nil
  then show ?case by (auto simp: returns_fresh_dict_def)
next
  case (Cons val vals)
  obtain t h1 where nd: "new_dict [variable \<mapsto> val] h = (t, h1)"
    by (cases "new_dict [variable \<mapsto> val] h")
  obtain r2 h2 where tr: "try t h1 = (r2, h2)" by (cases "try t h1")
  note f1 = frame_new_dict[OF Cons.prems(2) nd]
  have "nd \<le> t" using f1(2) frame_bounds(3)[OF Cons.prems(2)] by simp
  from assms[OF tr f1(1) this] have f2: "frame nf nc nd h0 h2" "returns_fresh_dict h0 r2 h2"
    by simp_all
  show ?case
  proof (cases "r2 = Some (Inr None)")
    case True
    with Cons.prems(1) nd tr have "h_for_val try variable vals h2 = (r, h')" by simp
    from Cons.IH[OF this f2(1)] show ?thesis .
  next
    case False
    with Cons.prems(1) nd tr have "r = r2" "h' = h2"
      by (auto split: option.splits sum.splits)
    with f2 show ?thesis by simp
  qed
qed

lemma h_satisfying_assignment_call_frame: "call_frame (h_satisfying_assignment n)"
proof (induction n)
  case 0
  show ?case by (simp add: call_frame_def frame_refl returns_fresh_dict_def)
next
  case (Suc n)
  show ?case
    unfolding call_frame_def
  proof (intro allI impI)
    fix f and h :: "'a heap" and r h'
    assume run: "h_satisfying_assignment (Suc n) f h = (r, h')"
    let ?nf = "length (formula_objs h)" and ?nc = "length (clause_objs h)"
      and ?nd = "length (dict_objs h)"
    have f0: "frame ?nf ?nc ?nd h h" by (simp add: frame_refl)
    show "frame ?nf ?nc ?nd h h' \<and> returns_fresh_dict h r h'"
    proof (cases "length (formula_objs h ! f) = 0")
      case True
      obtain d h1 where nd: "new_dict Map.empty h = (d, h1)" by (cases "new_dict Map.empty h")
      with run True have res: "r = Some (Inr (Some d))" "h' = h1" by simp_all
      from frame_new_dict[OF f0 nd] show ?thesis by (simp add: res returns_fresh_dict_def)
    next
      case False
      show ?thesis
      proof (cases "clause_objs h ! (formula_objs h ! f ! 0)")
        case Nil
        with run False have "r = Some (Inl IndexError)" "h' = h" by simp_all
        with f0 show ?thesis by (simp add: returns_fresh_dict_def)
      next
        case (Cons l ls)
        obtain variable val where l: "l = (variable, val)" by (cases l)
        from run False Cons l
        have fv: "h_for_val (h_try_assignment (h_satisfying_assignment n) n f) variable
            [val, \<not> val] h = (r, h')" by simp
        show ?thesis
        proof (rule frame_h_for_val[OF _ fv f0])
          fix t and h1 :: "'a heap" and r1 h1'
          assume "h_try_assignment (h_satisfying_assignment n) n f t h1 = (r1, h1')"
            and "frame ?nf ?nc ?nd h h1" and "?nd \<le> t"
          then show "frame ?nf ?nc ?nd h h1' \<and> returns_fresh_dict h r1 h1'"
            by (rule frame_h_try_assignment[OF Suc.IH])
        qed
      qed
    qed
  qed
qed

lemma frame_take:
  assumes "frame (length (formula_objs h)) (length (clause_objs h)) nd h h'"
  shows "take (length (formula_objs h)) (formula_objs h') = formula_objs h"
    "take (length (clause_objs h)) (clause_objs h') = clause_objs h"
  using assms by (auto simp: frame_def intro: same_below_take)

lemma frame_take_dicts:
  assumes "frame nf nc (length (dict_objs h)) h h'"
  shows "take (length (dict_objs h)) (dict_objs h') = dict_objs h"
  using assms by (auto simp: frame_def intro: same_below_take)

definition example_heap :: "string heap" where
  "example_heap = \<lparr>formula_objs = [[0, 1]],
     clause_objs = [[(''a'', True), (''b'', True)], [(''a'', True)]],
     dict_objs = [Map.empty]\<rparr>"

lemmas h_eval_simps = h_simplify_with_unit_clauses_def h_try_assignment_def new_formula_def
  new_clause_def new_dict_def clause_append_def formula_append_def dict_set_def dict_update_def
  example_heap_def

section \<open>The run on the store computes what the functions compute\<close>

text \<open>
  The formula a reference stands for in a store, and when a reference is one: it names a
  formula list of the store whose elements name clause lists of the store.
\<close>

definition formula_of :: "'v heap \<Rightarrow> nat \<Rightarrow> 'v formula" where
  "formula_of h f = map (\<lambda>c. clause_objs h ! c) (formula_objs h ! f)"

definition valid_formula :: "'v heap \<Rightarrow> nat \<Rightarrow> bool" where
  "valid_formula h f =
     (f < length (formula_objs h) \<and> (\<forall>c \<in> set (formula_objs h ! f). c < length (clause_objs h)))"

lemma h_scan_clause_refines:
  "h_scan_clause ls a sc h = (b, h') \<Longrightarrow> sc < length (clause_objs h) \<Longrightarrow>
     formula_objs h' = formula_objs h \<and> dict_objs h' = dict_objs h \<and>
     length (clause_objs h') = length (clause_objs h) \<and>
     (\<forall>i. i \<noteq> sc \<longrightarrow> clause_objs h' ! i = clause_objs h ! i) \<and>
     (case scan_clause ls (dict_objs h ! a) (clause_objs h ! sc) of
        None \<Rightarrow> \<not> b
      | Some c' \<Rightarrow> b \<and> clause_objs h' ! sc = c')"
proof (induction ls a sc h rule: h_scan_clause.induct)
  case (1 a sc h)
  then show ?case by simp
next
  case (2 variable val rest a sc h)
  show ?case
  proof (cases "(dict_objs h ! a) variable")
    case None
    let ?h1 = "clause_append sc (variable, val) h"
    from "2.prems"(1) None have run: "h_scan_clause rest a sc ?h1 = (b, h')" by simp
    have len: "sc < length (clause_objs ?h1)" using "2.prems"(2) by (simp add: clause_append_def)
    have h1: "formula_objs ?h1 = formula_objs h" "dict_objs ?h1 = dict_objs h"
      "length (clause_objs ?h1) = length (clause_objs h)"
      "clause_objs ?h1 ! sc = clause_objs h ! sc @ [(variable, val)]"
      "\<And>i. i \<noteq> sc \<Longrightarrow> clause_objs ?h1 ! i = clause_objs h ! i"
      using "2.prems"(2) by (simp_all add: clause_append_def)
    from "2.IH"(1)[OF None run len] show ?thesis using None by (simp add: h1)
  next
    case (Some stored)
    show ?thesis
    proof (cases "stored = val")
      case True
      with "2.prems" Some show ?thesis by simp
    next
      case False
      with "2.prems"(1) Some have run: "h_scan_clause rest a sc h = (b, h')" by simp
      from "2.IH"(2)[OF Some False run "2.prems"(2)] show ?thesis using Some False by simp
    qed
  qed
qed

lemma h_simplify_loop_refines:
  assumes "h_simplify_loop cs a sf u h = (r, h')"
    and "\<forall>c \<in> set cs. c < length (clause_objs h)"
    and "valid_formula h sf" and "a < length (dict_objs h)"
    and "simplify_loop (map (\<lambda>c. clause_objs h ! c) cs) (dict_objs h ! a) (formula_of h sf) u
           = (pr, A')"
  shows "dict_objs h' ! a = A' \<and>
     (case pr of
        None \<Rightarrow> r = None
      | Some (F', u') \<Rightarrow> r = Some (sf, u') \<and> formula_of h' sf = F' \<and> valid_formula h' sf)"
  using assms
proof (induction cs arbitrary: u h)
  case Nil
  then show ?case by auto
next
  case (Cons c cs)
  let ?A = "dict_objs h ! a"
  obtain sc h1 where nc: "new_clause h = (sc, h1)" by (cases "new_clause h")
  then have sc: "sc = length (clause_objs h)" and h1: "h1 = h\<lparr>clause_objs := clause_objs h @ [[]]\<rparr>"
    by (auto simp: new_clause_def)
  have c: "c < length (clause_objs h)" using Cons.prems(2) by simp
  have read: "clause_objs h1 ! c = clause_objs h ! c" using c by (simp add: h1 nth_append)
  obtain b h2 where run2: "h_scan_clause (clause_objs h ! c) a sc h1 = (b, h2)"
    by (cases "h_scan_clause (clause_objs h ! c) a sc h1")
  have "sc < length (clause_objs h1)" by (simp add: sc h1)
  from h_scan_clause_refines[OF run2 this]
  have h2: "formula_objs h2 = formula_objs h" "dict_objs h2 = dict_objs h"
    "length (clause_objs h2) = Suc (length (clause_objs h))"
    "\<And>i. i < length (clause_objs h) \<Longrightarrow> clause_objs h2 ! i = clause_objs h ! i"
    and res: "case scan_clause (clause_objs h ! c) ?A [] of
        None \<Rightarrow> \<not> b | Some c' \<Rightarrow> b \<and> clause_objs h2 ! sc = c'"
    by (auto simp: h1 sc nth_append)
  have old: "map (\<lambda>c. clause_objs h2 ! c) cs = map (\<lambda>c. clause_objs h ! c) cs"
    using Cons.prems(2) h2(4) by auto
  have fo: "formula_of h2 sf = formula_of h sf"
    using Cons.prems(3) h2(1,4) by (auto simp: formula_of_def valid_formula_def)
  have vf: "valid_formula h2 sf"
    using Cons.prems(3) h2(1,3) by (auto simp: valid_formula_def)
  have cs2: "\<forall>c \<in> set cs. c < length (clause_objs h2)" using Cons.prems(2) h2(3) by auto
  have a2: "a < length (dict_objs h2)" using Cons.prems(4) h2(2) by simp
  show ?case
  proof (cases "scan_clause (clause_objs h ! c) ?A []")
    case None
    with res have b: "\<not> b" by simp
    from Cons.prems(1) nc run2 read b
    have run: "h_simplify_loop cs a sf u h2 = (r, h')" by simp
    from Cons.prems(5) None
    have pure: "simplify_loop (map (\<lambda>c. clause_objs h2 ! c) cs) (dict_objs h2 ! a)
        (formula_of h2 sf) u = (pr, A')"
      by (simp add: simplify_loop.simps old fo h2(2))
    from Cons.IH[OF run cs2 vf a2 pure] show ?thesis .
  next
    case (Some c')
    with res have b: b and c': "clause_objs h2 ! sc = c'" by simp_all
    consider (zero) "length c' = 0" | (one) "length c' = 1"
      | (many) "length c' \<noteq> 0" "length c' \<noteq> 1" by blast
    then show ?thesis
    proof cases
      case zero
      with Cons.prems(1) nc run2 read b c' have "r = None" "h' = h2" by simp_all
      moreover from Cons.prems(5) Some zero have "pr = None" "A' = ?A"
        by (simp_all add: simplify_loop.simps)
      ultimately show ?thesis by (simp add: h2(2))
    next
      case one
      obtain cv cval where l: "c' ! 0 = (cv, cval)" by (cases "c' ! 0")
      let ?h3 = "dict_set a cv cval h2"
      from one have ne: "c' \<noteq> []" by auto
      from Cons.prems(1) nc run2 read b c' one l ne
      have run: "h_simplify_loop cs a sf True ?h3 = (r, h')" by simp
      have h3: "formula_objs ?h3 = formula_objs h2" "clause_objs ?h3 = clause_objs h2"
        "dict_objs ?h3 ! a = ?A(cv \<mapsto> cval)" "length (dict_objs ?h3) = length (dict_objs h2)"
        using a2 by (simp_all add: dict_set_def h2(2))
      have fo3: "formula_of ?h3 sf = formula_of h sf" using fo h3 by (simp add: formula_of_def)
      have vf3: "valid_formula ?h3 sf" using vf h3 by (simp add: valid_formula_def)
      from Cons.prems(5) Some one l ne
      have pure: "simplify_loop (map (\<lambda>c. clause_objs ?h3 ! c) cs) (dict_objs ?h3 ! a)
        (formula_of ?h3 sf) True = (pr, A')"
        by (simp add: simplify_loop.simps old fo3 h3)
      from Cons.IH[OF run _ vf3 _ pure] cs2 a2 h3 show ?thesis by simp
    next
      case many
      let ?h3 = "formula_append sf sc h2"
      from Cons.prems(1) nc run2 read b c' many
      have run: "h_simplify_loop cs a sf u ?h3 = (r, h')" by simp
      have sfl: "sf < length (formula_objs h2)" using vf by (simp add: valid_formula_def)
      have h3: "clause_objs ?h3 = clause_objs h2" "dict_objs ?h3 = dict_objs h2"
        "formula_objs ?h3 ! sf = formula_objs h2 ! sf @ [sc]"
        "length (formula_objs ?h3) = length (formula_objs h2)"
        using sfl by (simp_all add: formula_append_def)
      have fo3: "formula_of ?h3 sf = formula_of h sf @ [c']"
        using fo c' h3 by (simp add: formula_of_def)
      have vf3: "valid_formula ?h3 sf"
        using vf h3 h2(3) by (auto simp: valid_formula_def sc)
      from Cons.prems(5) Some many
      have pure: "simplify_loop (map (\<lambda>c. clause_objs ?h3 ! c) cs) (dict_objs ?h3 ! a)
        (formula_of ?h3 sf) u = (pr, A')"
        by (simp add: simplify_loop.simps old fo3 h3 h2(2))
      from Cons.IH[OF run _ vf3 _ pure] cs2 a2 h3 show ?thesis by simp
    qed
  qed
qed

lemma h_simplify_refines:
  assumes "h_simplify_with_unit_clauses f a h = (r, h')"
    and "valid_formula h f" and "a < length (dict_objs h)"
    and "simplify_with_unit_clauses (formula_of h f) (dict_objs h ! a) = (pr, A')"
  shows "dict_objs h' ! a = A' \<and>
     (case pr of
        None \<Rightarrow> r = None
      | Some (F', u') \<Rightarrow>
          (\<exists>sf. r = Some (sf, u') \<and> formula_of h' sf = F' \<and> valid_formula h' sf))"
proof -
  obtain sf h1 where nf: "new_formula [] h = (sf, h1)" by (cases "new_formula [] h")
  then have sf: "sf = length (formula_objs h)"
    and h1: "h1 = h\<lparr>formula_objs := formula_objs h @ [[]]\<rparr>"
    by (auto simp: new_formula_def)
  have fl: "f < length (formula_objs h)" using assms(2) by (simp add: valid_formula_def)
  have read: "formula_objs h1 ! f = formula_objs h ! f" using fl by (simp add: h1 nth_append)
  from assms(1) nf read
  have run: "h_simplify_loop (formula_objs h ! f) a sf False h1 = (r, h')"
    by (simp add: h_simplify_with_unit_clauses_def)
  have 1: "\<forall>c \<in> set (formula_objs h ! f). c < length (clause_objs h1)"
    using assms(2) by (simp add: valid_formula_def h1)
  have 2: "valid_formula h1 sf" by (simp add: valid_formula_def h1 sf)
  have 3: "a < length (dict_objs h1)" using assms(3) by (simp add: h1)
  have 4: "formula_of h1 sf = []" by (simp add: formula_of_def h1 sf)
  have 5: "clause_objs h1 = clause_objs h" "dict_objs h1 = dict_objs h" by (simp_all add: h1)
  from assms(4)
  have pure: "simplify_loop (map (\<lambda>c. clause_objs h1 ! c) (formula_objs h ! f))
      (dict_objs h1 ! a) (formula_of h1 sf) False = (pr, A')"
    unfolding 4 5 by (simp add: simplify_with_unit_clauses_def formula_of_def)
  from h_simplify_loop_refines[OF run 1 2 3 pure] show ?thesis
    by (auto split: option.splits)
qed


lemma h_propagate_while_refines:
  "h_propagate_while n u sf t h = (r, h') \<Longrightarrow> valid_formula h sf \<Longrightarrow> t < length (dict_objs h) \<Longrightarrow>
   (u \<longrightarrow> card (formula_vars (formula_of h sf) - dom (dict_objs h ! t)) < n) \<Longrightarrow>
   t < length (dict_objs h') \<and>
   (case propagate_while u (formula_of h sf) (dict_objs h ! t) of
      None \<Rightarrow> r = Some None
    | Some (F', A') \<Rightarrow>
        dict_objs h' ! t = A' \<and>
        (\<exists>sf'. r = Some (Some sf') \<and> formula_of h' sf' = F' \<and> valid_formula h' sf'))"
proof (induction n arbitrary: u sf h)
  case 0
  then have "\<not> u" by simp
  with 0 show ?case by auto
next
  case (Suc n)
  show ?case
  proof (cases u)
    case False
    with Suc.prems show ?thesis by auto
  next
    case True
    let ?F = "formula_of h sf" and ?A = "dict_objs h ! t"
    obtain r1 h1 where pass: "h_simplify_with_unit_clauses sf t h = (r1, h1)"
      by (cases "h_simplify_with_unit_clauses sf t h")
    obtain pr A1 where pure: "simplify_with_unit_clauses ?F ?A = (pr, A1)"
      by (cases "simplify_with_unit_clauses ?F ?A")
    from h_simplify_refines[OF pass Suc.prems(2,3) pure]
    have d1: "dict_objs h1 ! t = A1"
      and rel: "case pr of None \<Rightarrow> r1 = None
        | Some (F', u') \<Rightarrow> (\<exists>sf'. r1 = Some (sf', u') \<and> formula_of h1 sf' = F' \<and> valid_formula h1 sf')"
      by simp_all
    from h_simplify_dicts[OF pass] Suc.prems(3) have t1: "t < length (dict_objs h1)" by simp
    show ?thesis
    proof (cases pr)
      case None
      with rel have "r1 = None" by simp
      with Suc.prems(1) True pass have "r = Some None" "h' = h1" by simp_all
      with t1 pure None True show ?thesis by (simp add: propagate_while_True)
    next
      case (Some p)
      obtain F1 u1 where p: "p = (F1, u1)" by (cases p)
      with rel Some obtain sf1 where r1: "r1 = Some (sf1, u1)"
        and f1: "formula_of h1 sf1 = F1" and v1: "valid_formula h1 sf1" by auto
      from Suc.prems(1) True pass r1 have run: "h_propagate_while n u1 sf1 t h1 = (r, h')" by simp
      have m: "u1 \<longrightarrow> card (formula_vars (formula_of h1 sf1) - dom (dict_objs h1 ! t)) < n"
      proof
        assume u1
        with pure Some p have "simplify_with_unit_clauses ?F ?A = (Some (F1, True), A1)" by simp
        from simplify_pass_measure[OF this] Suc.prems(4) True
        show "card (formula_vars (formula_of h1 sf1) - dom (dict_objs h1 ! t)) < n"
          by (simp add: f1 d1)
      qed
      from Suc.IH[OF run v1 t1 m] pure Some p True show ?thesis
        by (simp add: propagate_while_True f1 d1)
    qed
  qed
qed

text \<open>
  What a result of the search on the store stands for: a returned reference is the dict it
  names in the final store.
\<close>

definition result_of :: "'v heap \<Rightarrow> error + nat option \<Rightarrow> error + 'v assignment option" where
  "result_of h r =
     (case r of
        Inl e \<Rightarrow> Inl e
      | Inr None \<Rightarrow> Inr None
      | Inr (Some d) \<Rightarrow> Inr (Some (dict_objs h ! d)))"

definition call_refines :: "(nat \<Rightarrow> 'v heap \<Rightarrow> h_result \<times> 'v heap) \<Rightarrow> nat \<Rightarrow> bool" where
  "call_refines call k =
     (\<forall>f h r h'. call f h = (r, h') \<longrightarrow> valid_formula h f \<longrightarrow>
        card (formula_vars (formula_of h f)) < k \<longrightarrow>
        (\<exists>x. r = Some x \<and> result_of h' x = satisfying_assignment (formula_of h f)))"

lemma frame_formula_of:
  assumes "frame (length (formula_objs h0)) (length (clause_objs h0)) nd h0 h"
    and "valid_formula h0 f"
  shows "formula_of h f = formula_of h0 f" "valid_formula h f"
proof -
  from assms(1) have fo: "\<forall>i < length (formula_objs h0). formula_objs h ! i = formula_objs h0 ! i"
    and co: "\<forall>i < length (clause_objs h0). clause_objs h ! i = clause_objs h0 ! i"
    and len: "length (formula_objs h0) \<le> length (formula_objs h)"
      "length (clause_objs h0) \<le> length (clause_objs h)"
    by (auto simp: frame_def same_below_def)
  from assms(2) have f: "f < length (formula_objs h0)"
    and cs: "\<forall>c \<in> set (formula_objs h0 ! f). c < length (clause_objs h0)"
    by (auto simp: valid_formula_def)
  from fo f have eq: "formula_objs h ! f = formula_objs h0 ! f" by simp
  show "formula_of h f = formula_of h0 f" using eq co cs by (auto simp: formula_of_def)
  show "valid_formula h f" using eq f cs len by (auto simp: valid_formula_def)
qed

lemma result_of_not_None: "x \<noteq> Inr None \<Longrightarrow> result_of h x \<noteq> Inr None"
  by (auto simp: result_of_def split: sum.splits option.splits)

lemma h_try_assignment_refines:
  assumes cf: "call_frame recursive_call" and cr: "call_refines recursive_call k"
    and run: "h_try_assignment recursive_call passes f t h = (r, h')"
    and vf: "valid_formula h f" and t: "t < length (dict_objs h)"
    and F: "formula_of h f = ((v, b) # rest) # cs" and T: "dict_objs h ! t = [v \<mapsto> b']"
    and k: "card (formula_vars (formula_of h f)) \<le> k"
    and ps: "card (formula_vars (formula_of h f)) \<le> passes"
  shows "\<exists>x. r = Some x \<and> result_of h' x = try_assignment (formula_of h f) [v \<mapsto> b']"
proof -
  let ?F = "formula_of h f"
  obtain sf h1 where nf: "new_formula (formula_objs h ! f) h = (sf, h1)"
    by (cases "new_formula (formula_objs h ! f) h")
  then have sf: "sf = length (formula_objs h)"
    and h1: "h1 = h\<lparr>formula_objs := formula_objs h @ [formula_objs h ! f]\<rparr>"
    by (auto simp: new_formula_def)
  have f1: "formula_of h1 sf = ?F" by (simp add: formula_of_def h1 sf)
  have v1: "valid_formula h1 sf" using vf by (simp add: valid_formula_def h1 sf)
  have t1: "t < length (dict_objs h1)" "dict_objs h1 ! t = [v \<mapsto> b']" using t T by (simp_all add: h1)
  obtain r2 h2 where p: "h_propagate_while passes True sf t h1 = (r2, h2)"
    by (cases "h_propagate_while passes True sf t h1")
  have "v \<in> formula_vars ?F" by (simp add: F clause_vars_def)
  then have "card (formula_vars ?F - {v}) < card (formula_vars ?F)"
    by (intro card_Diff1_less) simp_all
  with ps have m: "True \<longrightarrow> card (formula_vars (formula_of h1 sf) - dom (dict_objs h1 ! t)) < passes"
    by (simp add: f1 t1)
  from h_propagate_while_refines[OF p v1 t1(1) m]
  have t2: "t < length (dict_objs h2)"
    and rel: "case propagate_while True ?F [v \<mapsto> b'] of
      None \<Rightarrow> r2 = Some None
    | Some (F', A') \<Rightarrow> dict_objs h2 ! t = A' \<and>
        (\<exists>sf'. r2 = Some (Some sf') \<and> formula_of h2 sf' = F' \<and> valid_formula h2 sf')"
    by (simp_all add: f1 t1)
  show ?thesis
  proof (cases "propagate_while True ?F [v \<mapsto> b']")
    case None
    with rel have "r2 = Some None" by simp
    with run nf p have "r = Some (Inr None)" "h' = h2" by (simp_all add: h_try_assignment_def)
    with None show ?thesis by (simp add: result_of_def try_assignment.simps)
  next
    case (Some q)
    obtain F' A' where q: "q = (F', A')" by (cases q)
    with rel Some obtain sf' where d2: "dict_objs h2 ! t = A'" and r2: "r2 = Some (Some sf')"
      and f2: "formula_of h2 sf' = F'" and v2: "valid_formula h2 sf'" by auto
    obtain r3 h3 where rc: "recursive_call sf' h2 = (r3, h3)" by (cases "recursive_call sf' h2")
    from Some q have "card (formula_vars F') < card (formula_vars ?F)"
      using seed_shrinks[of ?F v b rest b' F' A'] F by simp
    with k have "card (formula_vars (formula_of h2 sf')) < k" by (simp add: f2)
    from cr[unfolded call_refines_def, rule_format, OF rc v2 this]
    obtain x3 where r3: "r3 = Some x3"
      and x3: "result_of h3 x3 = satisfying_assignment F'"
      unfolding f2 by blast
    from cf rc have fr: "frame (length (formula_objs h2)) (length (clause_objs h2))
          (length (dict_objs h2)) h2 h3" and fresh: "returns_fresh_dict h2 r3 h3"
      by (auto simp: call_frame_def)
    from fr t2 have d3: "dict_objs h3 ! t = A'" by (auto simp: frame_def same_below_def d2)
    show ?thesis
    proof (cases "\<exists>d. x3 = Inr (Some d)")
      case True
      then obtain d where d: "x3 = Inr (Some d)" by blast
      with fresh r3 have dl: "length (dict_objs h2) \<le> d" "d < length (dict_objs h3)"
        by (auto simp: returns_fresh_dict_def)
      from run nf p r2 rc r3 d
      have res: "r = Some (Inr (Some d))" "h' = dict_update d t h3"
        by (simp_all add: h_try_assignment_def)
      have "dict_objs h' ! d = (dict_objs h3 ! d) ++ A'"
        using dl(2) by (simp add: res dict_update_def d3)
      moreover from x3 d have "satisfying_assignment F' = Inr (Some (dict_objs h3 ! d))"
        by (simp add: result_of_def)
      ultimately show ?thesis using Some q res
        by (simp add: result_of_def try_assignment.simps update_result_def)
    next
      case False
      with run nf p r2 rc r3 have res: "r = Some x3" "h' = h3"
        by (auto simp: h_try_assignment_def split: option.splits sum.splits)
      from False x3 have "update_result (satisfying_assignment F') A' = result_of h3 x3"
        by (auto simp: result_of_def update_result_def split: sum.splits option.splits)
      with Some q res show ?thesis by (simp add: try_assignment.simps)
    qed
  qed
qed

lemma h_for_val_refines:
  assumes tf: "\<And>t h r h'. try t h = (r, h') \<Longrightarrow> frame nf nc nd h0 h \<Longrightarrow> nd \<le> t \<Longrightarrow>
      frame nf nc nd h0 h' \<and> returns_fresh_dict h0 r h'"
    and tr: "\<And>val t h r h'. try t h = (r, h') \<Longrightarrow> frame nf nc nd h0 h \<Longrightarrow>
      t < length (dict_objs h) \<Longrightarrow> dict_objs h ! t = [variable \<mapsto> val] \<Longrightarrow>
      \<exists>x. r = Some x \<and> result_of h' x = try_assignment F [variable \<mapsto> val]"
  shows "h_for_val try variable vals h = (r, h') \<Longrightarrow> frame nf nc nd h0 h \<Longrightarrow>
     \<exists>x. r = Some x \<and> result_of h' x = for_val F variable vals"
proof (induction vals arbitrary: h)
  case Nil
  then show ?case by (auto simp: result_of_def)
next
  case (Cons val vals)
  obtain t h1 where nd: "new_dict [variable \<mapsto> val] h = (t, h1)"
    by (cases "new_dict [variable \<mapsto> val] h")
  obtain r2 h2 where run2: "try t h1 = (r2, h2)" by (cases "try t h1")
  note f1 = frame_new_dict[OF Cons.prems(2) nd]
  have le: "nd \<le> t" using f1(2) frame_bounds(3)[OF Cons.prems(2)] by simp
  have dt: "dict_objs h1 ! t = [variable \<mapsto> val]" using nd by (auto simp: new_dict_def)
  from tf[OF run2 f1(1) le] have f2: "frame nf nc nd h0 h2" by simp
  from tr[OF run2 f1(1) f1(3) dt] obtain x where x: "r2 = Some x"
    and rx: "result_of h2 x = try_assignment F [variable \<mapsto> val]" by blast
  show ?case
  proof (cases "x = Inr None")
    case True
    with Cons.prems(1) nd run2 x have "h_for_val try variable vals h2 = (r, h')" by simp
    from Cons.IH[OF this f2] obtain y where "r = Some y" "result_of h' y = for_val F variable vals"
      by blast
    moreover from True rx have "try_assignment F [variable \<mapsto> val] = Inr None"
      by (simp add: result_of_def)
    ultimately show ?thesis by simp
  next
    case False
    with Cons.prems(1) nd run2 x have res: "r = Some x" "h' = h2"
      by (auto split: option.splits sum.splits)
    from result_of_not_None[OF False, of h2] rx
    have "for_val F variable (val # vals) = try_assignment F [variable \<mapsto> val]"
      by (auto split: sum.splits option.splits)
    with res rx show ?thesis by simp
  qed
qed

lemma h_satisfying_assignment_call_refines: "call_refines (h_satisfying_assignment n) n"
proof (induction n)
  case 0
  show ?case by (simp add: call_refines_def)
next
  case (Suc n)
  show ?case
    unfolding call_refines_def
  proof (intro allI impI)
    fix f and h :: "'a heap" and r h'
    assume run: "h_satisfying_assignment (Suc n) f h = (r, h')"
      and vf: "valid_formula h f"
      and card: "card (formula_vars (formula_of h f)) < Suc n"
    let ?F = "formula_of h f"
    let ?nf = "length (formula_objs h)" and ?nc = "length (clause_objs h)"
      and ?nd = "length (dict_objs h)"
    have f0: "frame ?nf ?nc ?nd h h" by (simp add: frame_refl)
    show "\<exists>x. r = Some x \<and> result_of h' x = satisfying_assignment ?F"
    proof (cases "formula_objs h ! f")
      case Nil
      then have F: "?F = []" by (simp add: formula_of_def)
      obtain d h1 where nd: "new_dict Map.empty h = (d, h1)" by (cases "new_dict Map.empty h")
      with run Nil have res: "r = Some (Inr (Some d))" "h' = h1" by simp_all
      from nd have "dict_objs h1 ! d = Map.empty" by (auto simp: new_dict_def)
      with res F show ?thesis by (simp add: result_of_def)
    next
      case (Cons c0 crefs)
      then have ne: "length (formula_objs h ! f) \<noteq> 0" by simp
      from Cons have F: "?F = clause_objs h ! c0 # map (\<lambda>c. clause_objs h ! c) crefs"
        by (simp add: formula_of_def)
      show ?thesis
      proof (cases "clause_objs h ! c0")
        case Nil
        with run ne Cons have "r = Some (Inl IndexError)" "h' = h" by simp_all
        with F Nil show ?thesis by (simp add: result_of_def)
      next
        case (Cons l ls)
        obtain v b where l: "l = (v, b)" by (cases l)
        from F Cons l have F': "?F = ((v, b) # ls) # map (\<lambda>c. clause_objs h ! c) crefs" by simp
        from run ne \<open>formula_objs h ! f = c0 # crefs\<close> Cons l
        have fv: "h_for_val (h_try_assignment (h_satisfying_assignment n) n f) v [b, \<not> b] h
            = (r, h')" by simp
        have "\<exists>x. r = Some x \<and> result_of h' x = for_val ?F v [b, \<not> b]"
        proof (rule h_for_val_refines[OF _ _ fv f0])
          fix t and h1 :: "'a heap" and r1 h1'
          assume "h_try_assignment (h_satisfying_assignment n) n f t h1 = (r1, h1')"
            and "frame ?nf ?nc ?nd h h1" and "?nd \<le> t"
          then show "frame ?nf ?nc ?nd h h1' \<and> returns_fresh_dict h r1 h1'"
            by (rule frame_h_try_assignment[OF h_satisfying_assignment_call_frame])
        next
          fix val t and h1 :: "'a heap" and r1 h1'
          assume run1: "h_try_assignment (h_satisfying_assignment n) n f t h1 = (r1, h1')"
            and fr: "frame ?nf ?nc ?nd h h1" and t: "t < length (dict_objs h1)"
            and dt: "dict_objs h1 ! t = [v \<mapsto> val]"
          note fo = frame_formula_of[OF fr vf]
          have c: "card (formula_vars (formula_of h1 f)) \<le> n" using card fo(1) by simp
          from h_try_assignment_refines[OF h_satisfying_assignment_call_frame Suc.IH run1 fo(2) t
              _ dt c c, of b ls "map (\<lambda>c. clause_objs h ! c) crefs"] fo(1) F'
          show "\<exists>x. r1 = Some x \<and> result_of h1' x = try_assignment ?F [v \<mapsto> val]"
            by simp
        qed
        then show ?thesis by (simp add: F' satisfying_assignment_for_val)
      qed
    qed
  qed
qed

lemma h_satisfying_assignment_refines:
  assumes "valid_formula h f" "card (formula_vars (formula_of h f)) < n"
  shows "\<exists>x h'. h_satisfying_assignment n f h = (Some x, h') \<and>
     result_of h' x = satisfying_assignment (formula_of h f)"
proof -
  obtain r h' where run: "h_satisfying_assignment n f h = (r, h')"
    by (cases "h_satisfying_assignment n f h")
  from h_satisfying_assignment_call_refines[of n, unfolded call_refines_def, rule_format,
      OF run assms] run
  show ?thesis by auto
qed

section \<open>The doctests of the source\<close>

text \<open>
  The examples in the docstrings of \<open>simplify_with_unit_clauses\<close> and
  \<open>satisfying_assignment\<close>, run on the model. (The \<open>print\<close> in the \<open>except\<close> branch
  of \<open>try_assignment\<close> writes to the standard output and is not part of the model.)
\<close>

definition doctest_cnf :: "string formula" where
  "doctest_cnf =
     [[(''a'', True), (''b'', True), (''c'', True)],
      [(''a'', False), (''f'', True)],
      [(''d'', False), (''e'', True), (''a'', True), (''g'', True)],
      [(''h'', False), (''c'', True), (''a'', False), (''f'', True)]]"

lemma doctest_simplify_1:
  "fst (simplify_with_unit_clauses doctest_cnf [''a'' \<mapsto> True]) = Some ([], True)"
  by (simp add: eval_simps doctest_cnf_def)

lemma doctest_simplify_2:
  "fst (simplify_with_unit_clauses doctest_cnf [''a'' \<mapsto> False]) =
     Some ([[(''b'', True), (''c'', True)], [(''d'', False), (''e'', True), (''g'', True)]], False)"
  by (simp add: eval_simps doctest_cnf_def)

lemma doctest_simplify_3:
  "fst (simplify_with_unit_clauses doctest_cnf [''a'' \<mapsto> True, ''f'' \<mapsto> True]) =
     Some ([], False)"
  by (simp add: eval_simps doctest_cnf_def)

lemma doctest_simplify_4:
  "fst (simplify_with_unit_clauses doctest_cnf [''a'' \<mapsto> True, ''f'' \<mapsto> False]) = None"
  by (simp add: eval_simps doctest_cnf_def)

lemma doctest_satisfying_assignment_1:
  "satisfying_assignment ([] :: string formula) = Inr (Some Map.empty)"
  by simp

lemma doctest_satisfying_assignment_2:
  "satisfying_assignment [[(''a'', True), (''b'', False), (''c'', True)]]
     = Inr (Some [''a'' \<mapsto> True])"
  by (simp add: eval_simps)

lemma doctest_satisfying_assignment_3:
  "satisfying_assignment [[(''a'', True)], [(''a'', False)]] = Inr None"
  by (simp add: eval_simps)

section \<open>The claims of the specification\<close>

text \<open>
  The call stack limit of Python (the module sets it to 10000) is not part of the model:
  the functions below recurse as deep as the formula asks.
\<close>

text \<open>
  Claim C1: for every formula \<open>F\<close>, \<open>satisfying_assignment F\<close> returns a dict that
  satisfies every clause of \<open>F\<close>, or returns \<open>None\<close>. On the formula \<open>[[]]\<close> the call
  returns neither: \<open>formula[0][0]\<close> raises \<open>IndexError\<close>. On every other kind of formula
  (empty, or with a non-empty first clause) the call does return
  (\<open>satisfying_assignment_returns\<close>), and a dict it returns satisfies every clause
  (\<open>satisfying_assignment_sound\<close>).
\<close>

theorem no_result_on_empty_first_clause:
  "\<not> (\<exists>r. satisfying_assignment ([[]] :: string formula) = Inr r)"
  by simp

text \<open>
  Claim C2: when \<open>satisfying_assignment F\<close> returns \<open>None\<close>, no assignment satisfies
  every clause of \<open>F\<close>; here \<open>M\<close> is any assignment, in particular any total one on
  the variables of \<open>F\<close>.
\<close>

theorem None_only_when_unsatisfiable:
  "satisfying_assignment F = Inr None \<Longrightarrow> \<not> satisfies M F"
  by (rule satisfying_assignment_None_unsat)

theorem None_only_when_unsatisfiable_witness:
  "satisfying_assignment [[(''a'', True)], [(''a'', False)]] = Inr None \<and>
   \<not> satisfies [''a'' \<mapsto> True] [[(''a'', True)], [(''a'', False)]]"
proof -
  have e: "satisfying_assignment [[(''a'', True)], [(''a'', False)]] = Inr None"
    by (simp add: eval_simps)
  from None_only_when_unsatisfiable[OF e]
  have "\<not> satisfies [''a'' \<mapsto> True] [[(''a'', True)], [(''a'', False)]]" .
  with e show ?thesis by simp
qed

text \<open>
  Claim C3: a formula with an empty clause, wherever the clause stands, makes
  \<open>satisfying_assignment\<close> return \<open>None\<close> without raising. When the empty clause is the
  first clause the call raises \<open>IndexError\<close> at \<open>formula[0][0]\<close>, before any propagation.
  An empty clause behind a non-empty first clause does give \<open>None\<close>
  (\<open>satisfying_assignment_later_empty_clause\<close>).
\<close>

theorem empty_first_clause_IndexError:
  "satisfying_assignment ([] # cs) = Inl IndexError"
  by simp

text \<open>
  Claim C10: every key of a dict returned by \<open>satisfying_assignment F\<close> is a variable
  of some literal of some clause of \<open>F\<close>.
\<close>

theorem keys_occur_in_formula:
  "satisfying_assignment F = Inr (Some A) \<Longrightarrow> dom A \<subseteq> formula_vars F"
  by (rule satisfying_assignment_keys)

theorem keys_occur_in_formula_witness:
  "satisfying_assignment [[(''a'', True), (''b'', False), (''c'', True)]]
     = Inr (Some [''a'' \<mapsto> True]) \<and>
   dom [''a'' \<mapsto> True] \<subseteq> formula_vars [[(''a'', True), (''b'', False), (''c'', True)]]"
proof -
  have e: "satisfying_assignment [[(''a'', True), (''b'', False), (''c'', True)]]
     = Inr (Some [''a'' \<mapsto> True])"
    by (simp add: eval_simps)
  from keys_occur_in_formula[OF e] e show ?thesis by simp
qed

text \<open>
  Claim C4: \<open>simplify_with_unit_clauses\<close> treats each clause as the specification says:
  the function of the source equals \<open>simplify_spec\<close>, the pass written from the words of
  the claim.
\<close>

theorem simplify_follows_spec:
  "simplify_with_unit_clauses formula assignments = simplify_spec formula assignments [] False"
  by (simp add: simplify_with_unit_clauses_def simplify_loop_spec)

text \<open>
  Claim C5: re-running \<open>simplify_with_unit_clauses\<close> on its own output, with the dict as
  the first call left it, returns the same clause list and no unit clause. This fails
  when the first call found a unit clause after it had emitted a clause with the same
  variable: on \<open>[[a, b], [a]]\<close> the first call returns \<open>([[a, b]], True)\<close> and binds
  \<open>a\<close>, and the second call, on \<open>[[a, b]]\<close>, drops the clause and returns
  \<open>([], False)\<close>.
\<close>

theorem single_pass_not_idempotent:
  "simplify_with_unit_clauses [[(''a'', True), (''b'', True)], [(''a'', True)]] Map.empty
     = (Some ([[(''a'', True), (''b'', True)]], True), [''a'' \<mapsto> True]) \<and>
   simplify_with_unit_clauses [[(''a'', True), (''b'', True)]] [''a'' \<mapsto> True]
     = (Some ([], False), [''a'' \<mapsto> True])"
  by (simp add: eval_simps)

text \<open>
  Claim C5 as amended: when a call of \<open>simplify_with_unit_clauses\<close> reports no unit
  clause, re-running it on its output with the same dict returns the same clause list,
  no unit clause, and the same dict. The loop of \<open>try_assignment\<close> runs the pass until
  that happens, so what the loop ends with is such a fixpoint.
\<close>

theorem no_unit_pass_idempotent:
  "(simplify_with_unit_clauses F A = (Some (F', False), A') \<longrightarrow>
      simplify_with_unit_clauses F' A' = (Some (F', False), A')) \<and>
   (propagate_while True G T = Some (G', T') \<longrightarrow>
      simplify_with_unit_clauses G' T' = (Some (G', False), T'))"
  using simplify_no_unit_fixpoint propagate_while_fixpoint by blast

theorem no_unit_pass_idempotent_witness:
  "simplify_with_unit_clauses [[(''a'', True), (''b'', True)]] Map.empty
     = (Some ([[(''a'', True), (''b'', True)]], False), Map.empty) \<and>
   propagate_while True [[(''a'', True), (''b'', True), (''c'', True)], [(''a'', True)]] Map.empty
     = Some ([], [''a'' \<mapsto> True]) \<and>
   simplify_with_unit_clauses [] [''a'' \<mapsto> True] = (Some ([], False), [''a'' \<mapsto> True])"
proof -
  have 1: "simplify_with_unit_clauses [[(''a'', True), (''b'', True)]] Map.empty
     = (Some ([[(''a'', True), (''b'', True)]], False), Map.empty)"
    by (simp add: eval_simps)
  have 2: "propagate_while True [[(''a'', True), (''b'', True), (''c'', True)], [(''a'', True)]] Map.empty
     = Some ([], [''a'' \<mapsto> True])"
    by (simp add: eval_simps)
  from no_unit_pass_idempotent[of "[[(''a'', True), (''b'', True)]]" Map.empty
      "[[(''a'', True), (''b'', True)]]" Map.empty
      "[[(''a'', True), (''b'', True), (''c'', True)], [(''a'', True)]]" Map.empty
      "[]" "[''a'' \<mapsto> True]"] 1 2
  show ?thesis by simp
qed

text \<open>
  Claim C8: every variable of the output of \<open>simplify_with_unit_clauses\<close> is absent from
  the dict after the call, hence the dict update in \<open>try_assignment\<close> never overwrites a
  binding. The first half fails for a single call: on \<open>[[x, y], [x]]\<close> the clause
  \<open>[x, y]\<close> is emitted before the unit clause binds \<open>x\<close>.
\<close>

theorem single_pass_output_keeps_assigned_variable:
  "fst (simplify_with_unit_clauses [[(''x'', False), (''y'', True)], [(''x'', False)]] Map.empty)
     = Some ([[(''x'', False), (''y'', True)]], True) \<and>
   ''x'' \<in> formula_vars [[(''x'', False), (''y'', True)]] \<and>
   snd (simplify_with_unit_clauses [[(''x'', False), (''y'', True)], [(''x'', False)]] Map.empty) ''x''
     = Some False"
  by (simp add: eval_simps clause_vars_def)

text \<open>
  Claim C8 as amended: every variable of the output of a call that reports no unit clause
  is absent from the dict after the call, and so is every variable of the formula the
  loop of \<open>try_assignment\<close> ends with. Hence the keys of the dict returned by the
  recursive call are disjoint from the keys of \<open>temp_assignment\<close>, and the update
  changes no binding of the returned dict.
\<close>

theorem merge_keys_disjoint:
  "(simplify_with_unit_clauses F A = (Some (F', False), A') \<longrightarrow>
      formula_vars F' \<inter> dom A' = {}) \<and>
   (propagate_while True G T = Some (G', T') \<longrightarrow> formula_vars G' \<inter> dom T' = {}) \<and>
   (propagate_while True G T = Some (G', T') \<and> satisfying_assignment G' = Inr (Some B) \<longrightarrow>
      dom B \<inter> dom T' = {} \<and> (\<forall>v \<in> dom B. (B ++ T') v = B v))"
proof (intro conjI impI)
  assume "simplify_with_unit_clauses F A = (Some (F', False), A')"
  then show "formula_vars F' \<inter> dom A' = {}" by (rule simplify_no_unit_residual)
next
  assume "propagate_while True G T = Some (G', T')"
  from propagate_while_residual[OF this] show "formula_vars G' \<inter> dom T' = {}" by simp
next
  assume a: "propagate_while True G T = Some (G', T') \<and> satisfying_assignment G' = Inr (Some B)"
  then show d: "dom B \<inter> dom T' = {}" using try_assignment_disjoint by blast
  show "\<forall>v \<in> dom B. (B ++ T') v = B v"
  proof
    fix v assume "v \<in> dom B"
    with d have "v \<notin> dom T'" by auto
    then show "(B ++ T') v = B v" by (simp add: map_add_dom_app_simps)
  qed
qed

theorem merge_keys_disjoint_witness:
  "simplify_with_unit_clauses [[(''a'', True), (''b'', True)]] Map.empty
     = (Some ([[(''a'', True), (''b'', True)]], False), Map.empty) \<and>
   formula_vars [[(''a'', True), (''b'', True)]] \<inter> dom (Map.empty :: string assignment) = {} \<and>
   propagate_while True [[(''a'', True), (''b'', True)], [(''c'', True), (''d'', True)]]
       [''a'' \<mapsto> True]
     = Some ([[(''c'', True), (''d'', True)]], [''a'' \<mapsto> True]) \<and>
   satisfying_assignment [[(''c'', True), (''d'', True)]] = Inr (Some [''c'' \<mapsto> True]) \<and>
   formula_vars [[(''c'', True), (''d'', True)]] \<inter> dom [''a'' \<mapsto> True] = {} \<and>
   dom [''c'' \<mapsto> True] \<inter> dom [''a'' \<mapsto> True] = {} \<and>
   ([''c'' \<mapsto> True] ++ [''a'' \<mapsto> True]) ''c'' = [''c'' \<mapsto> True] ''c''"
proof -
  have 1: "simplify_with_unit_clauses [[(''a'', True), (''b'', True)]] Map.empty
     = (Some ([[(''a'', True), (''b'', True)]], False), Map.empty)"
    by (simp add: eval_simps)
  have 2: "propagate_while True [[(''a'', True), (''b'', True)], [(''c'', True), (''d'', True)]]
       [''a'' \<mapsto> True]
     = Some ([[(''c'', True), (''d'', True)]], [''a'' \<mapsto> True])"
    by (simp add: eval_simps)
  have 3: "satisfying_assignment [[(''c'', True), (''d'', True)]] = Inr (Some [''c'' \<mapsto> True])"
    by (simp add: eval_simps)
  from merge_keys_disjoint[of "[[(''a'', True), (''b'', True)]]" Map.empty
      "[[(''a'', True), (''b'', True)]]" Map.empty
      "[[(''a'', True), (''b'', True)], [(''c'', True), (''d'', True)]]" "[''a'' \<mapsto> True]"
      "[[(''c'', True), (''d'', True)]]" "[''a'' \<mapsto> True]" "[''c'' \<mapsto> True]"] 1 2 3
  show ?thesis by simp
qed

text \<open>
  Claim C6: on every non-empty formula \<open>F\<close>, \<open>satisfying_assignment\<close> branches on
  the first literal of the first clause of \<open>F\<close> and returns the result of the first
  trial that succeeds. This fails on the non-empty formula \<open>[[]]\<close>: its first clause has
  no literal, \<open>formula[0][0]\<close> raises \<open>IndexError\<close>, and no trial is run; the loop
  over the two polarities of any variable would give \<open>None\<close> there.
\<close>

theorem empty_first_clause_has_no_branching:
  "length ([[]] :: string formula) \<noteq> 0 \<and>
   satisfying_assignment ([[]] :: string formula) = Inl IndexError \<and>
   for_val ([[]] :: string formula) ''a'' [True, False] = Inr None"
  by (simp add: eval_simps)

text \<open>
  Claim C6 as amended: on every formula \<open>F\<close> whose first clause is non-empty, so that
  it starts with a literal \<open>(v, b)\<close>, \<open>satisfying_assignment\<close> runs \<open>try_assignment\<close>
  on \<open>{v: b}\<close> first and on \<open>{v: not b}\<close> second, and returns what the first trial
  that is not \<open>None\<close> returns. So when the trial of the polarity as written gives a
  dict, that dict is returned, and it binds \<open>v\<close> to \<open>b\<close>; the second trial is
  returned only when the first gives \<open>None\<close>.
\<close>

theorem first_literal_branching:
  assumes "F = ((v, b) # rest) # cs"
  shows "satisfying_assignment F = for_val F v [b, \<not> b] \<and>
    (\<forall>A. try_assignment F [v \<mapsto> b] = Inr (Some A) \<longrightarrow>
       satisfying_assignment F = Inr (Some A) \<and> A v = Some b) \<and>
    (try_assignment F [v \<mapsto> b] = Inr None \<longrightarrow>
       satisfying_assignment F = try_assignment F [v \<mapsto> (\<not> b)]) \<and>
    (\<forall>A. satisfying_assignment F = Inr (Some A) \<longrightarrow>
       try_assignment F [v \<mapsto> b] = Inr (Some A) \<or>
       (try_assignment F [v \<mapsto> b] = Inr None \<and> try_assignment F [v \<mapsto> (\<not> b)] = Inr (Some A)
          \<and> A v = Some (\<not> b)))"
proof (intro conjI allI impI)
  show "satisfying_assignment F = for_val F v [b, \<not> b]"
    unfolding assms by (rule satisfying_assignment_for_val)
next
  fix A assume t: "try_assignment F [v \<mapsto> b] = Inr (Some A)"
  then show "satisfying_assignment F = Inr (Some A)"
    unfolding assms by (simp add: satisfying_assignment_branch first_result_def)
  from t show "A v = Some b" by (rule try_assignment_seed)
next
  assume "try_assignment F [v \<mapsto> b] = Inr None"
  then show "satisfying_assignment F = try_assignment F [v \<mapsto> (\<not> b)]"
    unfolding assms by (simp add: satisfying_assignment_branch first_result_def)
next
  fix A assume "satisfying_assignment F = Inr (Some A)"
  then have "try_assignment F [v \<mapsto> b] = Inr (Some A) \<or>
     (try_assignment F [v \<mapsto> b] = Inr None \<and> try_assignment F [v \<mapsto> (\<not> b)] = Inr (Some A))"
    unfolding assms by (simp add: satisfying_assignment_branch first_result_Some)
  then show "try_assignment F [v \<mapsto> b] = Inr (Some A) \<or>
       (try_assignment F [v \<mapsto> b] = Inr None \<and> try_assignment F [v \<mapsto> (\<not> b)] = Inr (Some A)
          \<and> A v = Some (\<not> b))"
    using try_assignment_seed[of F v "\<not> b" A] by blast
qed

theorem first_literal_branching_witness:
  "try_assignment [[(''a'', True), (''b'', True)]] [''a'' \<mapsto> True] = Inr (Some [''a'' \<mapsto> True]) \<and>
   try_assignment [[(''a'', True), (''b'', True)]] [''a'' \<mapsto> False]
     = Inr (Some [''a'' \<mapsto> False, ''b'' \<mapsto> True]) \<and>
   satisfying_assignment [[(''a'', True), (''b'', True)]] = Inr (Some [''a'' \<mapsto> True]) \<and>
   satisfying_assignment [[(''a'', True), (''b'', True)]]
     = for_val [[(''a'', True), (''b'', True)]] ''a'' [True, False]"
proof -
  have 1: "try_assignment [[(''a'', True), (''b'', True)]] [''a'' \<mapsto> True]
      = Inr (Some [''a'' \<mapsto> True])"
    by (simp add: eval_simps)
  have 2: "try_assignment [[(''a'', True), (''b'', True)]] [''a'' \<mapsto> False]
     = Inr (Some [''a'' \<mapsto> False, ''b'' \<mapsto> True])"
    by (simp add: eval_simps)
  from first_literal_branching[of "[[(''a'', True), (''b'', True)]]" "''a''" True "[(''b'', True)]" "[]"]
  have "satisfying_assignment [[(''a'', True), (''b'', True)]]
          = for_val [[(''a'', True), (''b'', True)]] ''a'' [True, False]"
    and "try_assignment [[(''a'', True), (''b'', True)]] [''a'' \<mapsto> True] = Inr (Some [''a'' \<mapsto> True])
       \<longrightarrow> satisfying_assignment [[(''a'', True), (''b'', True)]] = Inr (Some [''a'' \<mapsto> True])"
    by simp_all
  with 1 2 show ?thesis by simp
qed

text \<open>
  Claim C7: \<open>satisfying_assignment\<close> terminates. With room for more nested calls than
  the formula has variables the depth-counted search returns, and returns what
  \<open>satisfying_assignment\<close> returns; the formula of each recursive call has lost the
  branching variable and has fewer variables than the caller's. The loop of
  \<open>try_assignment\<close> ends within one pass more than there are variables of the formula
  outside the dict; a pass that reports a unit clause keeps the bindings of the dict and
  binds a variable of the formula that was not bound before.
\<close>

theorem search_terminates:
  "(card (formula_vars F) < n \<longrightarrow>
      satisfying_assignment_depth n F = Some (satisfying_assignment F)) \<and>
   (propagate_while True (((v, b) # rest) # cs) [v \<mapsto> b'] = Some (F', A') \<longrightarrow>
      v \<notin> formula_vars F' \<and>
      card (formula_vars F') < card (formula_vars (((v, b) # rest) # cs))) \<and>
   (card (formula_vars G - dom T) < m \<longrightarrow>
      propagate_while_fuel m True G T = Some (propagate_while True G T)) \<and>
   (simplify_with_unit_clauses G T = (Some (G', True), T') \<longrightarrow>
      T \<subseteq>\<^sub>m T' \<and> (\<exists>x \<in> formula_vars G. x \<notin> dom T \<and> x \<in> dom T'))"
proof (intro conjI impI)
  assume "card (formula_vars F) < n"
  then show "satisfying_assignment_depth n F = Some (satisfying_assignment F)"
    by (rule satisfying_assignment_depth_enough)
next
  assume p: "propagate_while True (((v, b) # rest) # cs) [v \<mapsto> b'] = Some (F', A')"
  then show "v \<notin> formula_vars F'" by (rule seed_removed)
  from p show "card (formula_vars F') < card (formula_vars (((v, b) # rest) # cs))"
    by (intro seed_shrinks[of _ v b rest b' F' A']) simp_all
next
  assume "card (formula_vars G - dom T) < m"
  then show "propagate_while_fuel m True G T = Some (propagate_while True G T)"
    by (intro propagate_while_fuel_enough) simp
next
  assume s: "simplify_with_unit_clauses G T = (Some (G', True), T')"
  from simplify_unit_assigns[OF s] show "T \<subseteq>\<^sub>m T'" ..
  from simplify_unit_assigns[OF s] show "\<exists>x \<in> formula_vars G. x \<notin> dom T \<and> x \<in> dom T'" ..
qed

theorem search_terminates_witness:
  "satisfying_assignment_depth (Suc (Suc (Suc 0))) [[(''a'', True), (''b'', True)]]
     = Some (Inr (Some [''a'' \<mapsto> True])) \<and>
   satisfying_assignment_depth (Suc 0) [[(''a'', True), (''b'', True)]] = None \<and>
   satisfying_assignment [[(''a'', True), (''b'', True)]] = Inr (Some [''a'' \<mapsto> True]) \<and>
   card (formula_vars [[(''a'', True), (''b'', True)]]) = 2 \<and>
   propagate_while True [[(''a'', True), (''b'', True)]] [''a'' \<mapsto> False]
     = Some ([], [''a'' \<mapsto> False, ''b'' \<mapsto> True]) \<and>
   ''a'' \<notin> formula_vars ([] :: string formula) \<and>
   card (formula_vars ([] :: string formula)) < card (formula_vars [[(''a'', True), (''b'', True)]]) \<and>
   propagate_while_fuel (Suc (Suc (Suc 0))) True
       [[(''a'', True), (''b'', True)], [(''a'', True)]] Map.empty
     = Some (Some ([], [''a'' \<mapsto> True])) \<and>
   simplify_with_unit_clauses [[(''a'', True), (''b'', True)], [(''a'', True)]] Map.empty
     = (Some ([[(''a'', True), (''b'', True)]], True), [''a'' \<mapsto> True]) \<and>
   (Map.empty :: string assignment) \<subseteq>\<^sub>m [''a'' \<mapsto> True]"
proof -
  have c: "card (formula_vars [[(''a'', True), (''b'', True)]]) = 2"
    by (simp add: clause_vars_def)
  have c2: "card (formula_vars [[(''a'', True), (''b'', True)], [(''a'', True)]]
      - dom (Map.empty :: string assignment)) = 2"
    by (simp add: clause_vars_def)
  have s: "satisfying_assignment [[(''a'', True), (''b'', True)]] = Inr (Some [''a'' \<mapsto> True])"
    by (simp add: eval_simps)
  have d1: "satisfying_assignment_depth (Suc 0) [[(''a'', True), (''b'', True)]] = None"
    by (simp add: eval_simps try_assignment_depth_def)
  have p: "propagate_while True [[(''a'', True), (''b'', True)]] [''a'' \<mapsto> False]
     = Some ([], [''a'' \<mapsto> False, ''b'' \<mapsto> True])"
    by (simp add: eval_simps)
  have p2: "propagate_while True [[(''a'', True), (''b'', True)], [(''a'', True)]] Map.empty
     = Some ([], [''a'' \<mapsto> True])"
    by (simp add: eval_simps)
  have u: "simplify_with_unit_clauses [[(''a'', True), (''b'', True)], [(''a'', True)]] Map.empty
     = (Some ([[(''a'', True), (''b'', True)]], True), [''a'' \<mapsto> True])"
    by (simp add: eval_simps)
  from search_terminates[of "[[(''a'', True), (''b'', True)]]" "Suc (Suc (Suc 0))"
      "''a''" True "[(''b'', True)]" "[]" False "[]" "[''a'' \<mapsto> False, ''b'' \<mapsto> True]"
      "[[(''a'', True), (''b'', True)], [(''a'', True)]]" Map.empty "Suc (Suc (Suc 0))"
      "[[(''a'', True), (''b'', True)]]" "[''a'' \<mapsto> True]"]
  have "satisfying_assignment_depth (Suc (Suc (Suc 0))) [[(''a'', True), (''b'', True)]]
       = Some (satisfying_assignment [[(''a'', True), (''b'', True)]])"
    and "''a'' \<notin> formula_vars ([] :: string formula)"
    and "card (formula_vars ([] :: string formula)) < card (formula_vars [[(''a'', True), (''b'', True)]])"
    and "propagate_while_fuel (Suc (Suc (Suc 0))) True
       [[(''a'', True), (''b'', True)], [(''a'', True)]] Map.empty
      = Some (propagate_while True [[(''a'', True), (''b'', True)], [(''a'', True)]] Map.empty)"
    and "(Map.empty :: string assignment) \<subseteq>\<^sub>m [''a'' \<mapsto> True]"
    using c c2 p u by simp_all
  with c s d1 p p2 u show ?thesis by simp
qed

text \<open>
  Claim C9: neither \<open>satisfying_assignment\<close> nor \<open>simplify_with_unit_clauses\<close> mutates
  the formula it is given or any of its clauses. On the store: after a call of
  \<open>satisfying_assignment\<close>, whatever it returns, every formula list, clause list and dict
  that existed before the call is unchanged; after a call of
  \<open>simplify_with_unit_clauses\<close>, whatever it returns, every formula list and clause list
  that existed before the call is unchanged, and so is every dict but the one passed as
  \<open>assignments\<close>. (The run on the store returns what the functions above return:
  \<open>h_simplify_refines\<close>, \<open>h_satisfying_assignment_refines\<close>.)
\<close>

theorem input_formula_not_mutated:
  "(h_satisfying_assignment n formula h = (r, h') \<longrightarrow>
      take (length (formula_objs h)) (formula_objs h') = formula_objs h \<and>
      take (length (clause_objs h)) (clause_objs h') = clause_objs h \<and>
      take (length (dict_objs h)) (dict_objs h') = dict_objs h) \<and>
   (h_simplify_with_unit_clauses formula assignments g = (q, g') \<longrightarrow>
      take (length (formula_objs g)) (formula_objs g') = formula_objs g \<and>
      take (length (clause_objs g)) (clause_objs g') = clause_objs g \<and>
      length (dict_objs g') = length (dict_objs g) \<and>
      (\<forall>i. i \<noteq> assignments \<longrightarrow> dict_objs g' ! i = dict_objs g ! i))"
proof (intro conjI impI)
  assume "h_satisfying_assignment n formula h = (r, h')"
  with h_satisfying_assignment_call_frame[of n]
  have fr: "frame (length (formula_objs h)) (length (clause_objs h)) (length (dict_objs h)) h h'"
    by (auto simp: call_frame_def)
  from frame_take[OF fr] show "take (length (formula_objs h)) (formula_objs h') = formula_objs h"
    and "take (length (clause_objs h)) (clause_objs h') = clause_objs h" .
  from frame_take_dicts[OF fr] show "take (length (dict_objs h)) (dict_objs h') = dict_objs h" .
next
  assume run: "h_simplify_with_unit_clauses formula assignments g = (q, g')"
  have "frame (length (formula_objs g)) (length (clause_objs g)) 0 g g"
    by (simp add: frame_refl)
  from frame_h_simplify[OF run this]
  have fr: "frame (length (formula_objs g)) (length (clause_objs g)) 0 g g'" by simp
  from frame_take[OF fr] show "take (length (formula_objs g)) (formula_objs g') = formula_objs g"
    and "take (length (clause_objs g)) (clause_objs g') = clause_objs g" .
  from h_simplify_dicts[OF run] show "length (dict_objs g') = length (dict_objs g)"
    and "\<forall>i. i \<noteq> assignments \<longrightarrow> dict_objs g' ! i = dict_objs g ! i" by simp_all
qed

theorem input_formula_not_mutated_witness:
  "h_satisfying_assignment (Suc (Suc 0)) 0 example_heap =
     (Some (Inr (Some 2)),
      \<lparr>formula_objs = [[0, 1], [0, 1], []],
         clause_objs = [[(''a'', True), (''b'', True)], [(''a'', True)], [], []],
         dict_objs = [Map.empty, [''a'' \<mapsto> True], [''a'' \<mapsto> True]]\<rparr>) \<and>
   take (length (formula_objs example_heap)) [[0, 1], [0, 1], []] = formula_objs example_heap \<and>
   take (length (clause_objs example_heap))
       [[(''a'', True), (''b'', True)], [(''a'', True)], [], []] = clause_objs example_heap \<and>
   take (length (dict_objs example_heap)) [Map.empty, [''a'' \<mapsto> True], [''a'' \<mapsto> True]]
     = dict_objs example_heap \<and>
   h_simplify_with_unit_clauses 0 0 example_heap =
     (Some (1, True),
      \<lparr>formula_objs = [[0, 1], [2]],
         clause_objs = [[(''a'', True), (''b'', True)], [(''a'', True)],
                        [(''a'', True), (''b'', True)], [(''a'', True)]],
         dict_objs = [[''a'' \<mapsto> True]]\<rparr>) \<and>
   take (length (formula_objs example_heap)) [[0, 1], [2::nat]] = formula_objs example_heap \<and>
   take (length (clause_objs example_heap))
       [[(''a'', True), (''b'', True)], [(''a'', True)],
        [(''a'', True), (''b'', True)], [(''a'', True)]] = clause_objs example_heap \<and>
   (dict_objs example_heap ! 0) ''a'' = None"
proof -
  let ?H1 = "\<lparr>formula_objs = [[0, 1], [0, 1], []],
         clause_objs = [[(''a'', True), (''b'', True)], [(''a'', True)], [], []],
         dict_objs = [Map.empty, [''a'' \<mapsto> True], [''a'' \<mapsto> True]]\<rparr>"
  let ?H2 = "\<lparr>formula_objs = [[0, 1], [2]],
         clause_objs = [[(''a'', True), (''b'', True)], [(''a'', True)],
                        [(''a'', True), (''b'', True)], [(''a'', True)]],
         dict_objs = [[''a'' \<mapsto> True]]\<rparr>"
  have 1: "h_satisfying_assignment (Suc (Suc 0)) 0 example_heap = (Some (Inr (Some 2)), ?H1)"
    by (simp add: h_eval_simps)
  have 2: "h_simplify_with_unit_clauses 0 0 example_heap = (Some (1, True), ?H2)"
    by (simp add: h_eval_simps)
  have 3: "(dict_objs example_heap ! 0) ''a'' = None"
    by (simp add: example_heap_def)
  note frame = input_formula_not_mutated[of "Suc (Suc 0)" 0 example_heap "Some (Inr (Some 2))" ?H1
      0 example_heap "Some (1, True)" ?H2]
  from frame[THEN conjunct1, THEN mp, OF 1]
  have a: "take (length (formula_objs example_heap)) (formula_objs ?H1) = formula_objs example_heap"
    and b: "take (length (clause_objs example_heap)) (clause_objs ?H1) = clause_objs example_heap"
    and c: "take (length (dict_objs example_heap)) (dict_objs ?H1) = dict_objs example_heap"
    by blast+
  from frame[THEN conjunct2, THEN mp, OF 2]
  have d: "take (length (formula_objs example_heap)) (formula_objs ?H2) = formula_objs example_heap"
    and e: "take (length (clause_objs example_heap)) (clause_objs ?H2) = clause_objs example_heap"
    by blast+
  show ?thesis
  proof (intro conjI)
    show "h_satisfying_assignment (Suc (Suc 0)) 0 example_heap = (Some (Inr (Some 2)), ?H1)"
      by (rule 1)
    show "h_simplify_with_unit_clauses 0 0 example_heap = (Some (1, True), ?H2)"
      by (rule 2)
    show "(dict_objs example_heap ! 0) ''a'' = None" by (rule 3)
    show "take (length (formula_objs example_heap)) [[0, 1], [0, 1], []]
        = formula_objs example_heap" using a by simp
    show "take (length (clause_objs example_heap))
        [[(''a'', True), (''b'', True)], [(''a'', True)], [], []] = clause_objs example_heap"
      using b by simp
    show "take (length (dict_objs example_heap))
        [Map.empty, [''a'' \<mapsto> True], [''a'' \<mapsto> True]] = dict_objs example_heap"
      using c by simp
    show "take (length (formula_objs example_heap)) [[0, 1], [2::nat]]
        = formula_objs example_heap" using d by simp
    show "take (length (clause_objs example_heap))
        [[(''a'', True), (''b'', True)], [(''a'', True)],
         [(''a'', True), (''b'', True)], [(''a'', True)]] = clause_objs example_heap"
      using e by simp
  qed
qed

end
